theory Spec2Isabelle
  imports Complex_Main "HOL-Library.AList" "HOL-Library.Product_Lexorder"
begin

section \<open>Data model\<close>

text \<open>
  A feature record as declared by the \<^verbatim>\<open>Feature\<close> class. Ids and priorities are
  integers; where a tool computes a new priority the arithmetic of JavaScript numbers is
  modelled with it. The nullable column \<^verbatim>\<open>dependencies\<close> is an option.
\<close>

record Feature =
  fid :: int
  priority :: int
  category :: string
  name :: string
  description :: string
  steps :: "string list"
  passes :: bool
  in_progress :: bool
  dependencies :: "int list option"

text \<open>The constructor \<^verbatim>\<open>new Feature({id, priority, passes, in_progress, dependencies})\<close>
  with the remaining fields at their defaults.\<close>

definition new_Feature :: "int \<Rightarrow> int \<Rightarrow> bool \<Rightarrow> bool \<Rightarrow> int list option \<Rightarrow> Feature" where
  "new_Feature i p ps ip ds =
     \<lparr>fid = i, priority = p, category = [], name = [], description = [], steps = [],
      passes = ps, in_progress = ip, dependencies = ds\<rparr>"

text \<open>\<^verbatim>\<open>feature.dependencies || []\<close>\<close>

definition deps :: "Feature \<Rightarrow> int list" where
  "deps f = (case dependencies f of None \<Rightarrow> [] | Some ds \<Rightarrow> ds)"

definition MAX_DEPENDENCY_DEPTH :: nat where
  "MAX_DEPENDENCY_DEPTH = 50"

definition MAX_DEPENDENCIES :: nat where
  "MAX_DEPENDENCIES = 20"

text \<open>\<^verbatim>\<open>new Map(features.map((f) => [f.id, f]))\<close>: a later entry with the same id wins.\<close>

definition feature_map :: "Feature list \<Rightarrow> (int \<rightharpoonup> Feature)" where
  "feature_map features = map_of (rev (map (\<lambda>f. (fid f, f)) features))"

text \<open>\<^verbatim>\<open>m.get(k) || []\<close> and \<^verbatim>\<open>m.get(k) || 0\<close>\<close>

definition get_or_empty :: "(int \<rightharpoonup> 'a list) \<Rightarrow> int \<Rightarrow> 'a list" where
  "get_or_empty m k = (case m k of None \<Rightarrow> [] | Some v \<Rightarrow> v)"

definition get_or_zero :: "(int \<times> int) list \<Rightarrow> int \<Rightarrow> int" where
  "get_or_zero al k = (case map_of al k of None \<Rightarrow> 0 | Some n \<Rightarrow> n)"

text \<open>The exceptions of the runtime that the engine can raise.\<close>

datatype error = TypeError | RangeError

section \<open>Topological sorter\<close>

text \<open>
  The working structures of \<^verbatim>\<open>resolve_dependencies\<close>. The in-degree map is kept as an
  association list in insertion order (\<^verbatim>\<open>Map.set\<close> on an existing key keeps its place);
  the other maps are only read by key.
\<close>

record graph =
  adjacency :: "int \<rightharpoonup> int list"
  in_degree :: "(int \<times> int) list"
  blocked :: "int \<rightharpoonup> int list"
  missing :: "int \<rightharpoonup> int list"

definition init_graph :: "Feature list \<Rightarrow> graph" where
  "init_graph features =
     \<lparr>adjacency = map_of (map (\<lambda>f. (fid f, [])) features),
      in_degree = fold (\<lambda>f. AList.update (fid f) 0) features [],
      blocked = Map.empty,
      missing = Map.empty\<rparr>"

text \<open>The body of the inner loop of the graph construction, for one dependency id.\<close>

definition add_edge :: "(int \<rightharpoonup> Feature) \<Rightarrow> Feature \<Rightarrow> int \<Rightarrow> graph \<Rightarrow> graph" where
  "add_edge fm feature dep_id g =
     (case fm dep_id of
        None \<Rightarrow>
          g\<lparr>missing := (missing g)(fid feature \<mapsto> get_or_empty (missing g) (fid feature) @ [dep_id])\<rparr>
      | Some dep \<Rightarrow>
          (let g1 = g\<lparr>adjacency := (adjacency g)(dep_id \<mapsto> get_or_empty (adjacency g) dep_id @ [fid feature]),
                      in_degree := AList.update (fid feature)
                                     (get_or_zero (in_degree g) (fid feature) + 1) (in_degree g)\<rparr>
           in if \<not> passes dep
              then g1\<lparr>blocked := (blocked g1)(fid feature \<mapsto> get_or_empty (blocked g1) (fid feature) @ [dep_id])\<rparr>
              else g1))"

definition build_graph :: "Feature list \<Rightarrow> graph" where
  "build_graph features =
     fold (\<lambda>feature. fold (add_edge (feature_map features) feature) (deps feature))
       features (init_graph features)"

text \<open>
  The heap of \<^verbatim>\<open>heap-js\<close> with the comparator (priority, id): \<^verbatim>\<open>push\<close> adds an element and
  \<^verbatim>\<open>pop\<close> removes a least element of the comparator. The model keeps the elements in a
  list and extracts the least one (the first such when two elements compare equal).
\<close>

definition feature_less :: "Feature \<Rightarrow> Feature \<Rightarrow> bool" where
  "feature_less a b \<longleftrightarrow>
     (if priority a \<noteq> priority b then priority a - priority b < 0 else fid a - fid b < 0)"

fun heap_top :: "Feature \<Rightarrow> Feature list \<Rightarrow> Feature" where
  "heap_top m [] = m"
| "heap_top m (x # xs) = heap_top (if feature_less x m then x else m) xs"

definition heap_pop :: "Feature list \<Rightarrow> (Feature \<times> Feature list) option" where
  "heap_pop heap =
     (case heap of [] \<Rightarrow> None
      | x # xs \<Rightarrow> (let m = heap_top x xs in Some (m, remove1 m heap)))"

text \<open>
  The loop over the dependents of the popped feature. \<^verbatim>\<open>feature_map.get(dependent_id)!\<close>
  on an unknown id would put \<^verbatim>\<open>undefined\<close> on the heap, which raises a TypeError as soon
  as it is compared or popped.
\<close>

fun relax :: "(int \<rightharpoonup> Feature) \<Rightarrow> int list \<Rightarrow> (int \<times> int) list \<Rightarrow> Feature list
    \<Rightarrow> error + ((int \<times> int) list \<times> Feature list)" where
  "relax fm [] deg heap = Inr (deg, heap)"
| "relax fm (dependent_id # rest) deg heap =
     (let new_degree = get_or_zero deg dependent_id - 1;
          deg' = AList.update dependent_id new_degree deg
      in if new_degree = 0
         then (case fm dependent_id of
                 None \<Rightarrow> Inl TypeError
               | Some dep_feature \<Rightarrow> relax fm rest deg' (heap @ [dep_feature]))
         else relax fm rest deg' heap)"

definition pos_count :: "(int \<times> int) list \<Rightarrow> nat" where
  "pos_count al = length (filter (\<lambda>kv. 0 < snd kv) al)"

lemma pos_count_update_le:
  "pos_count (AList.update k v al) + (if 0 < get_or_zero al k then 1 else 0)
     = pos_count al + (if 0 < v then 1 else 0)"
  by (induction al) (auto simp: pos_count_def get_or_zero_def)

lemma relax_measure:
  "relax fm ds deg heap = Inr (deg', heap') \<Longrightarrow>
     length heap' + pos_count deg' \<le> length heap + pos_count deg"
proof (induction ds arbitrary: deg heap)
  case Nil
  then show ?case by simp
next
  case (Cons d ds)
  let ?n = "get_or_zero deg d - 1"
  have upd: "pos_count (AList.update d ?n deg) + (if 0 < get_or_zero deg d then 1 else 0)
               = pos_count deg + (if 0 < ?n then 1 else 0)"
    by (rule pos_count_update_le)
  show ?case
  proof (cases "?n = 0")
    case True
    then obtain f where f: "fm d = Some f"
      using Cons.prems by (auto simp: Let_def split: option.splits)
    with True Cons.prems
    have "relax fm ds (AList.update d ?n deg) (heap @ [f]) = Inr (deg', heap')"
      by (simp add: Let_def)
    from Cons.IH [OF this] upd True show ?thesis by simp
  next
    case False
    with Cons.prems
    have "relax fm ds (AList.update d ?n deg) heap = Inr (deg', heap')"
      by (simp add: Let_def)
    from Cons.IH [OF this] upd False show ?thesis
      by (simp split: if_splits)
  qed
qed

lemma heap_top_mem: "heap_top m xs \<in> set (m # xs)"
  by (induction xs arbitrary: m) auto

lemma heap_pop_length:
  "heap_pop heap = Some (m, heap') \<Longrightarrow> Suc (length heap') = length heap"
proof -
  assume a: "heap_pop heap = Some (m, heap')"
  then obtain x xs where h: "heap = x # xs"
    by (cases heap) (auto simp: heap_pop_def)
  with a have m: "m = heap_top x xs" and h': "heap' = remove1 m heap"
    by (auto simp: heap_pop_def Let_def)
  have "m \<in> set heap" using heap_top_mem [of x xs] m h by simp
  then have "length (remove1 m heap) = length heap - 1"
    by (simp add: length_remove1)
  moreover have "0 < length heap" using h by simp
  ultimately show ?thesis using h' by arith
qed

text \<open>The \<^verbatim>\<open>while (heap.size() > 0)\<close> loop of Kahn's algorithm.\<close>

function kahn_loop :: "(int \<rightharpoonup> Feature) \<Rightarrow> (int \<rightharpoonup> int list) \<Rightarrow> (int \<times> int) list
    \<Rightarrow> Feature list \<Rightarrow> Feature list \<Rightarrow> error + Feature list" where
  "kahn_loop fm adj deg heap ordered =
     (case heap_pop heap of
        None \<Rightarrow> Inr ordered
      | Some (current, heap') \<Rightarrow>
          (case relax fm (get_or_empty adj (fid current)) deg heap' of
             Inl e \<Rightarrow> Inl e
           | Inr (deg', heap'') \<Rightarrow> kahn_loop fm adj deg' heap'' (ordered @ [current])))"
  by pat_completeness auto
termination
proof (relation "measure (\<lambda>(fm, adj, deg, heap, ordered). length heap + pos_count deg)")
  show "wf (measure (\<lambda>(fm, adj, deg, heap, ordered). length heap + pos_count deg))"
    by simp
next
  fix fm :: "int \<rightharpoonup> Feature" and adj :: "int \<rightharpoonup> int list" and deg heap ordered x2 current
    heap' x2a deg' heap''
  assume "heap_pop heap = Some x2" "(current, heap') = x2"
    "relax fm (get_or_empty adj (fid current)) deg heap' = Inr x2a" "(deg', heap'') = x2a"
  then have p: "heap_pop heap = Some (current, heap')"
    and r: "relax fm (get_or_empty adj (fid current)) deg heap' = Inr (deg', heap'')"
    by simp_all
  from heap_pop_length [OF p] relax_measure [OF r]
  show "((fm, adj, deg', heap'', ordered @ [current]), (fm, adj, deg, heap, ordered))
          \<in> measure (\<lambda>(fm, adj, deg, heap, ordered). length heap + pos_count deg)"
    by simp
qed

section \<open>Cycle detector\<close>

text \<open>
  The mutable state shared by the closure \<^verbatim>\<open>dfs\<close> inside \<^verbatim>\<open>_detect_cycles\<close>:
  the visited set, the recursion stack, the current path and the cycles found so far.
\<close>

record dfs_state =
  visited :: "int set"
  rec_stack :: "int set"
  path :: "int list"
  cycles :: "int list list"

fun index_of :: "int list \<Rightarrow> int \<Rightarrow> int" where
  "index_of [] x = -1"
| "index_of (y # ys) x =
     (if y = x then 0 else (let i = index_of ys x in if i < 0 then -1 else i + 1))"

definition slice_from :: "'a list \<Rightarrow> int \<Rightarrow> 'a list" where
  "slice_from xs start =
     (let n = int (length xs);
          s = (if start < 0 then max (n + start) 0 else min start n)
      in drop (nat s) xs)"

definition dfs_enter :: "dfs_state \<Rightarrow> int \<Rightarrow> dfs_state" where
  "dfs_enter st i =
     st\<lparr>visited := insert i (visited st), rec_stack := insert i (rec_stack st),
        path := path st @ [i]\<rparr>"

definition dfs_leave :: "dfs_state \<Rightarrow> int \<Rightarrow> dfs_state" where
  "dfs_leave st i = st\<lparr>path := butlast (path st), rec_stack := rec_stack st - {i}\<rparr>"

text \<open>
  The closure \<^verbatim>\<open>dfs\<close> calls itself once for every node on the current path and nothing
  bounds that depth. The first argument is the number of frames the call stack still has
  room for; a call without room is the \<^verbatim>\<open>RangeError\<close> of the runtime, which no handler
  inside the engine catches.
\<close>

fun dfs :: "nat \<Rightarrow> Feature list \<Rightarrow> dfs_state \<Rightarrow> int \<Rightarrow> error + (bool \<times> dfs_state)"
  and dfs_loop :: "nat \<Rightarrow> Feature list \<Rightarrow> dfs_state \<Rightarrow> int list \<Rightarrow> error + (bool \<times> dfs_state)"
  where
  "dfs 0 features st i = Inl RangeError"
| "dfs (Suc stack) features st i =
     (let st1 = dfs_enter st i
      in case feature_map features i of
           None \<Rightarrow> Inr (False, dfs_leave st1 i)
         | Some feature \<Rightarrow>
             (case dfs_loop stack features st1 (deps feature) of
                Inl e \<Rightarrow> Inl e
              | Inr (True, st2) \<Rightarrow> Inr (True, st2)
              | Inr (False, st2) \<Rightarrow> Inr (False, dfs_leave st2 i)))"
| "dfs_loop stack features st [] = Inr (False, st)"
| "dfs_loop stack features st (dep_id # rest) =
     (if dep_id \<notin> visited st
      then (case dfs stack features st dep_id of
              Inl e \<Rightarrow> Inl e
            | Inr (True, st') \<Rightarrow> Inr (True, st')
            | Inr (False, st') \<Rightarrow> dfs_loop stack features st' rest)
      else if dep_id \<in> rec_stack st
      then Inr (True, st\<lparr>cycles := cycles st @ [slice_from (path st) (index_of (path st) dep_id)]\<rparr>)
      else dfs_loop stack features st rest)"

lemma feature_map_dom: "dom (feature_map features) = fid ` set features"
  by (auto simp: feature_map_def dom_map_of_conv_image_fst image_iff)

text \<open>The loop \<^verbatim>\<open>for (const f of features) if (!visited.has(f.id)) dfs(f.id)\<close>.\<close>

fun detect_loop :: "nat \<Rightarrow> Feature list \<Rightarrow> dfs_state \<Rightarrow> Feature list \<Rightarrow> error + dfs_state" where
  "detect_loop stack features st [] = Inr st"
| "detect_loop stack features st (f # rest) =
     (if fid f \<notin> visited st
      then (case dfs stack features st (fid f) of
              Inl e \<Rightarrow> Inl e
            | Inr (found, st') \<Rightarrow> detect_loop stack features st' rest)
      else detect_loop stack features st rest)"

definition detect_cycles :: "nat \<Rightarrow> Feature list \<Rightarrow> error + int list list" where
  "detect_cycles stack features =
     (case detect_loop stack features \<lparr>visited = {}, rec_stack = {}, path = [], cycles = []\<rparr>
             features of
        Inl e \<Rightarrow> Inl e
      | Inr st \<Rightarrow> Inr (cycles st))"

record DependencyResult =
  ordered_features :: "Feature list"
  circular_dependencies :: "int list list"
  blocked_features :: "int \<rightharpoonup> int list"
  missing_dependencies :: "int \<rightharpoonup> int list"

text \<open>
  \<^verbatim>\<open>resolve_dependencies\<close>. \<^verbatim>\<open>ordered.includes(f)\<close> compares object references; on a
  snapshot with unique ids this is equality of the records. The first argument is the room
  on the call stack for \<^verbatim>\<open>_detect_cycles\<close>, which runs only when Kahn's loop has left
  features behind; its \<^verbatim>\<open>RangeError\<close> leaves \<^verbatim>\<open>resolve_dependencies\<close> uncaught.
\<close>

definition resolve_dependencies :: "nat \<Rightarrow> Feature list \<Rightarrow> error + DependencyResult" where
  "resolve_dependencies stack features =
     (let fm = feature_map features;
          g = build_graph features;
          heap = filter (\<lambda>f. map_of (in_degree g) (fid f) = Some 0) features
      in case kahn_loop fm (adjacency g) (in_degree g) heap [] of
           Inl e \<Rightarrow> Inl e
         | Inr ordered \<Rightarrow>
             (if length ordered < length features
              then (let remaining = filter (\<lambda>f. f \<notin> set ordered) features
                    in case detect_cycles stack remaining of
                         Inl e \<Rightarrow> Inl e
                       | Inr found_cycles \<Rightarrow>
                           Inr \<lparr>ordered_features = ordered @ remaining,
                                circular_dependencies = found_cycles,
                                blocked_features = blocked g, missing_dependencies = missing g\<rparr>)
              else Inr \<lparr>ordered_features = ordered, circular_dependencies = [],
                        blocked_features = blocked g, missing_dependencies = missing g\<rparr>))"

section \<open>Dependency validator\<close>

text \<open>
  The closure \<^verbatim>\<open>can_reach\<close> of \<^verbatim>\<open>would_create_circular_dependency\<close> with its loop over
  the dependencies. The set \<^verbatim>\<open>visited\<close> it shares between its calls is passed in and
  returned (as \<open>seen\<close>).
\<close>

function can_reach :: "(int \<rightharpoonup> Feature) \<Rightarrow> int \<Rightarrow> int set \<Rightarrow> int \<Rightarrow> nat \<Rightarrow> bool \<times> int set"
  and can_reach_loop :: "(int \<rightharpoonup> Feature) \<Rightarrow> int \<Rightarrow> int set \<Rightarrow> int list \<Rightarrow> nat \<Rightarrow> bool \<times> int set"
  where
  "can_reach fm source_id seen current_id depth =
     (if depth > MAX_DEPENDENCY_DEPTH then (True, seen)
      else if current_id = source_id then (True, seen)
      else if current_id \<in> seen then (False, seen)
      else (let seen' = insert current_id seen
            in case fm current_id of
                 None \<Rightarrow> (False, seen')
               | Some current \<Rightarrow> can_reach_loop fm source_id seen' (deps current) depth))"
| "can_reach_loop fm source_id seen [] depth = (False, seen)"
| "can_reach_loop fm source_id seen (dep_id # rest) depth =
     (case can_reach fm source_id seen dep_id (depth + 1) of
        (True, seen') \<Rightarrow> (True, seen')
      | (False, seen') \<Rightarrow> can_reach_loop fm source_id seen' rest depth)"
  by pat_completeness auto
termination can_reach
  by (relation "inv_image (less_than <*lex*> less_than)
        (\<lambda>x. case x of
           Inl (fm, s, v, c, d) \<Rightarrow> (2 * (MAX_DEPENDENCY_DEPTH + 2 - d), 0)
         | Inr (fm, s, v, ds, d) \<Rightarrow> (2 * (MAX_DEPENDENCY_DEPTH + 2 - (d + 1)) + 1, length ds))")
     (auto simp: MAX_DEPENDENCY_DEPTH_def)

definition would_create_circular_dependency :: "Feature list \<Rightarrow> int \<Rightarrow> int \<Rightarrow> bool" where
  "would_create_circular_dependency features source_id target_id =
     (if source_id = target_id then True
      else (let fm = feature_map features
            in case (fm source_id, fm target_id) of
                 (Some source, Some target) \<Rightarrow> fst (can_reach fm source_id {} target_id 0)
               | _ \<Rightarrow> False))"

definition dep_edges :: "(int \<rightharpoonup> Feature) \<Rightarrow> (int \<times> int) set" where
  "dep_edges fm = {(a, b). \<exists>f. fm a = Some f \<and> b \<in> set (deps f)}"

declare can_reach.simps [simp del]

section \<open>Depth and downstream calculator, scheduling scorer\<close>

text \<open>\<^verbatim>\<open>m.get(k) || 0\<close> on a map of counters kept in insertion order.\<close>

definition get_or_zero_nat :: "(int \<times> nat) list \<Rightarrow> int \<Rightarrow> nat" where
  "get_or_zero_nat al k = (case map_of al k of None \<Rightarrow> 0 | Some n \<Rightarrow> n)"

text \<open>\<^verbatim>\<open>Math.max(...values)\<close> of counters; the lists it is applied to are not empty.\<close>

definition max_list :: "nat list \<Rightarrow> nat" where
  "max_list xs = foldr max xs 0"

text \<open>The adjacency lists \<^verbatim>\<open>children\<close> and \<^verbatim>\<open>parents\<close> of \<^verbatim>\<open>compute_scheduling_scores\<close>.\<close>

record adjacency_lists =
  children :: "int \<rightharpoonup> int list"
  parents :: "int \<rightharpoonup> int list"

definition add_child :: "Feature \<Rightarrow> int \<Rightarrow> adjacency_lists \<Rightarrow> adjacency_lists" where
  "add_child f dep_id a =
     (if children a dep_id \<noteq> None
      then a\<lparr>children := (children a)(dep_id \<mapsto> get_or_empty (children a) dep_id @ [fid f]),
             parents := (parents a)(fid f \<mapsto> get_or_empty (parents a) (fid f) @ [dep_id])\<rparr>
      else a)"

definition build_adjacency_lists :: "Feature list \<Rightarrow> adjacency_lists" where
  "build_adjacency_lists features =
     fold (\<lambda>f. fold (add_child f) (deps f)) features
       \<lparr>children = map_of (map (\<lambda>f. (fid f, [])) features),
        parents = map_of (map (\<lambda>f. (fid f, [])) features)\<rparr>"

text \<open>
  The breadth-first loop \<^verbatim>\<open>while (queue.length > 0)\<close>. Nothing bounds the queue, so the
  loop need not end; not returning is the value \<open>None\<close>.
\<close>

partial_function (option) bfs_loop ::
  "(int \<rightharpoonup> int list) \<Rightarrow> (int \<times> nat) list \<Rightarrow> (int \<times> nat) list \<Rightarrow> (int \<times> nat) list option" where
  [code]: "bfs_loop chs queue depths =
     (case queue of
        [] \<Rightarrow> Some depths
      | (node_id, depth) # rest \<Rightarrow>
          bfs_loop chs (rest @ map (\<lambda>child_id. (child_id, depth + 1)) (get_or_empty chs node_id))
            (case map_of depths node_id of
               None \<Rightarrow> AList.update node_id depth depths
             | Some d \<Rightarrow> if depth > d then AList.update node_id depth depths else depths))"

definition add_orphans :: "Feature list \<Rightarrow> (int \<times> nat) list \<Rightarrow> (int \<times> nat) list" where
  "add_orphans features depths =
     fold (\<lambda>f ds. if map_of ds (fid f) = None then AList.update (fid f) 0 ds else ds)
       features depths"

definition compute_downstream ::
  "Feature list \<Rightarrow> (int \<rightharpoonup> int list) \<Rightarrow> (int \<times> nat) list \<Rightarrow> (int \<times> nat) list" where
  "compute_downstream features prs depths =
     (let downstream = fold (\<lambda>f. AList.update (fid f) 0) features [];
          sorted_ids = sort_key (\<lambda>k. - int (get_or_zero_nat depths k)) (map fst depths)
      in fold (\<lambda>i. fold (\<lambda>parent_id ds.
                 AList.update parent_id
                   (get_or_zero_nat ds parent_id + 1 + get_or_zero_nat ds i) ds)
               (get_or_empty prs i))
           sorted_ids downstream)"

definition score_of :: "(int \<times> nat) list \<Rightarrow> (int \<times> nat) list \<Rightarrow> nat \<Rightarrow> nat \<Rightarrow> Feature \<Rightarrow> real" where
  "score_of depths downstream max_depth max_downstream f =
     (let unblock = (if max_downstream > 0
                     then real (get_or_zero_nat downstream (fid f)) / real max_downstream
                     else 0);
          depth_score = (if max_depth > 0
                         then 1 - real (get_or_zero_nat depths (fid f)) / real max_depth
                         else 1);
          priority_factor = (10 - real_of_int (min (priority f) 10)) / 10
      in 1000 * unblock + 100 * depth_score + 10 * priority_factor)"

definition compute_scheduling_scores :: "Feature list \<Rightarrow> (int \<rightharpoonup> real) option" where
  "compute_scheduling_scores features =
     (if length features = 0 then Some Map.empty
      else
        (let a = build_adjacency_lists features;
             roots = map fid (filter (\<lambda>f. length (get_or_empty (parents a) (fid f)) = 0) features)
         in case bfs_loop (children a) (map (\<lambda>root. (root, 0)) roots) [] of
              None \<Rightarrow> None
            | Some depths0 \<Rightarrow>
                (let depths = add_orphans features depths0;
                     downstream = compute_downstream features (parents a) depths;
                     max_depth = max_list (map snd depths);
                     max_downstream = max_list (map snd downstream)
                 in Some (fold (\<lambda>f scores.
                                  scores(fid f \<mapsto> score_of depths downstream max_depth max_downstream f))
                            features Map.empty))))"

text \<open>\<^verbatim>\<open>build_adjacency_list\<close>: feature id to its dependency list.\<close>

definition build_adjacency_list :: "Feature list \<Rightarrow> (int \<rightharpoonup> int list)" where
  "build_adjacency_list features = fold (\<lambda>feature adj. adj(fid feature \<mapsto> deps feature)) features Map.empty"

text \<open>
  \<^verbatim>\<open>compute_depth\<close> recurses through the dependency lists with a shared memo table. The
  first argument bounds the depth of the call stack; running out of it is the stack
  overflow of the runtime.
\<close>

fun compute_depth :: "nat \<Rightarrow> int \<Rightarrow> (int \<rightharpoonup> int list) \<Rightarrow> (int \<rightharpoonup> nat) \<Rightarrow> (nat \<times> (int \<rightharpoonup> nat)) option"
  and compute_depth_map :: "nat \<Rightarrow> int list \<Rightarrow> (int \<rightharpoonup> int list) \<Rightarrow> (int \<rightharpoonup> nat) \<Rightarrow> (nat list \<times> (int \<rightharpoonup> nat)) option"
  where
  "compute_depth 0 feature_id graph memo = None"
| "compute_depth (Suc stack) feature_id graph memo =
     (case memo feature_id of
        Some d \<Rightarrow> Some (d, memo)
      | None \<Rightarrow>
          (let ds = get_or_empty graph feature_id
           in if length ds = 0 then Some (0, memo(feature_id \<mapsto> 0))
              else (case compute_depth_map stack ds graph memo of
                      None \<Rightarrow> None
                    | Some (dep_depths, memo') \<Rightarrow>
                        (let depth = 1 + max_list dep_depths
                         in Some (depth, memo'(feature_id \<mapsto> depth))))))"
| "compute_depth_map stack [] graph memo = Some ([], memo)"
| "compute_depth_map stack (dep_id # rest) graph memo =
     (case compute_depth stack dep_id graph memo of
        None \<Rightarrow> None
      | Some (d, memo') \<Rightarrow>
          (case compute_depth_map stack rest graph memo' of
             None \<Rightarrow> None
           | Some (ds, memo'') \<Rightarrow> Some (d # ds, memo'')))"

section \<open>Readiness classifier\<close>

text \<open>\<^verbatim>\<open>new Set(features.filter((f) => f.passes).map((f) => f.id))\<close>\<close>

definition passing_ids :: "Feature list \<Rightarrow> int set" where
  "passing_ids features = set (map fid (filter passes features))"





record BlockedFeature = Feature +
  blocked_by :: "int list"

definition get_blocked_features :: "Feature list \<Rightarrow> BlockedFeature list" where
  "get_blocked_features features =
     concat (map (\<lambda>f. if passes f then []
                       else (let blocking = filter (\<lambda>d. d \<notin> passing_ids features) (deps f)
                             in if length blocking > 0
                                then [Feature.extend f (BlockedFeature.fields blocking)]
                                else []))
               features)"

section \<open>Feature store and the tools that mutate it\<close>

text \<open>
  The \<^verbatim>\<open>features\<close> table: its rows, and the largest id ever assigned (the table is
  declared \<^verbatim>\<open>INTEGER PRIMARY KEY AUTOINCREMENT\<close>). The column \<^verbatim>\<open>priority\<close> holds the
  integer that was written; the tools read it as a number. The JSON text of the columns
  \<^verbatim>\<open>steps\<close> and \<^verbatim>\<open>dependencies\<close> is modelled by the lists it encodes; a \<^verbatim>\<open>NULL\<close>
  dependency column is \<open>None\<close>.
\<close>

record store =
  rows :: "Feature list"
  last_id :: int

text \<open>The errors the tools report in their JSON answer, and the payload of a success.\<close>

datatype tool_error =
    NotFound int
  | DependencyFeatureNotFound int
  | AlreadyPassing
  | LockFailed
  | MissingFields nat
  | TooManyDependencies
  | TooManyIndices nat nat
  | DuplicateIndices nat
  | InvalidIndex nat int
  | ForwardReference nat int
  | SelfDependency
  | DependencyExists
  | DependencyMissing
  | DependenciesNotFound "int list"
  | DuplicateDependencies
  | CircularDependency
  | CircularDependencyOn int

datatype payload =
    Created Feature
  | CreatedBulk nat nat
  | Skipped int string int int
  | Dependencies int "int list"

type_synonym response = "tool_error + payload"

text \<open>\<^verbatim>\<open>SELECT MAX(priority) as max_priority FROM features\<close>: \<^verbatim>\<open>NULL\<close> on an empty table.\<close>

definition max_priority :: "store \<Rightarrow> int option" where
  "max_priority st =
     (case rows st of [] \<Rightarrow> None | r # rs \<Rightarrow> Some (fold max (map priority rs) (priority r)))"

text \<open>
  The values the tools compute with are JavaScript numbers, IEEE 754 doubles. An integer
  of magnitude below \<open>2 ^ 53\<close> is a number; a larger one is rounded to 53 significant bits,
  to the nearest such value and, on a tie, to the one with the even significand.
  \<open>to_number\<close> is this rounding: the number the driver hands over for the integer of an
  \<^verbatim>\<open>INTEGER\<close> column, and, applied to the exact sum, the result of \<^verbatim>\<open>+\<close> on numbers that
  hold integers (the magnitudes are far below \<open>2 ^ 1024\<close>, where a double overflows).
  \<open>drop_bits a\<close> is the number of low bits of \<open>a\<close> that do not fit the significand.
\<close>

function drop_bits :: "int \<Rightarrow> nat" where
  "drop_bits a = (if a < 2 ^ 53 then 0 else Suc (drop_bits (a div 2)))"
  by pat_completeness auto
termination
  by (relation "measure nat") auto

definition to_number :: "int \<Rightarrow> int" where
  "to_number x =
     (let a = \<bar>x\<bar>; e = drop_bits a; q = a div 2 ^ e; r = a mod 2 ^ e;
          m = (if 2 ^ e < 2 * r \<or> (2 * r = 2 ^ e \<and> odd q) then q + 1 else q)
      in sgn x * (m * 2 ^ e))"

definition js_add :: "int \<Rightarrow> int \<Rightarrow> int" where
  "js_add a b = to_number (a + b)"

text \<open>\<^verbatim>\<open>(maxRows[0]?.max_priority ?? 0) + 1\<close>\<close>

definition next_priority :: "store \<Rightarrow> int" where
  "next_priority st =
     js_add (case max_priority st of None \<Rightarrow> 0 | Some m \<Rightarrow> to_number m) 1"

text \<open>\<^verbatim>\<open>SELECT * FROM features WHERE id = ?\<close>\<close>

definition select_by_id :: "store \<Rightarrow> int \<Rightarrow> Feature list" where
  "select_by_id st i = filter (\<lambda>r. fid r = i) (rows st)"

text \<open>
  \<^verbatim>\<open>INSERT INTO features (priority, category, name, description, steps, passes,
  in_progress, dependencies) VALUES (?, ?, ?, ?, ?, 0, 0, NULL)\<close> followed by
  \<^verbatim>\<open>SELECT last_insert_rowid()\<close>: the new id is one above every id in use or used before.
\<close>

definition insert_feature :: "store \<Rightarrow> int \<Rightarrow> string \<Rightarrow> string \<Rightarrow> string \<Rightarrow> string list \<Rightarrow> int \<times> store" where
  "insert_feature st p c n d s =
     (let i = fold max (map fid (rows st)) (last_id st) + 1;
          row = \<lparr>fid = i, priority = p, category = c, name = n, description = d, steps = s,
                 passes = False, in_progress = False, dependencies = None\<rparr>
      in (i, st\<lparr>rows := rows st @ [row], last_id := i\<rparr>))"

text \<open>\<^verbatim>\<open>UPDATE features SET dependencies = ? WHERE id = ?\<close>\<close>

definition update_dependencies :: "store \<Rightarrow> int \<Rightarrow> int list option \<Rightarrow> store" where
  "update_dependencies st i ds =
     st\<lparr>rows := map (\<lambda>r. if fid r = i then r\<lparr>dependencies := ds\<rparr> else r) (rows st)\<rparr>"

text \<open>\<^verbatim>\<open>UPDATE features SET priority = ?, in_progress = ? WHERE id = ?\<close>\<close>

definition update_priority :: "store \<Rightarrow> int \<Rightarrow> int \<Rightarrow> store" where
  "update_priority st i p =
     st\<lparr>rows := map (\<lambda>r. if fid r = i then r\<lparr>priority := p, in_progress := False\<rparr> else r) (rows st)\<rparr>"

text \<open>
  \<^verbatim>\<open>feature_create\<close>. The first argument tells whether \<^verbatim>\<open>lockPriority()\<close> acquired the
  lock; when it throws, the tool answers with the error and has not touched the table.
  The feature in the answer is the new row as it is read back.
\<close>

definition feature_create :: "bool \<Rightarrow> store \<Rightarrow> string \<Rightarrow> string \<Rightarrow> string \<Rightarrow> string list \<Rightarrow> response \<times> store" where
  "feature_create locked st c n d s =
     (if \<not> locked then (Inl LockFailed, st)
      else (let next_priority = next_priority st;
                (feature_id, st') = insert_feature st next_priority c n d s
            in case select_by_id st' feature_id of
                 row # _ \<Rightarrow> (Inr (Created (row\<lparr>priority := to_number (priority row)\<rparr>)), st')
               | [] \<Rightarrow> (Inl (NotFound feature_id), st')))"

text \<open>\<^verbatim>\<open>feature_skip\<close>\<close>

definition feature_skip :: "bool \<Rightarrow> store \<Rightarrow> int \<Rightarrow> response \<times> store" where
  "feature_skip locked st feature_id =
     (case select_by_id st feature_id of
        [] \<Rightarrow> (Inl (NotFound feature_id), st)
      | feature # _ \<Rightarrow>
          if passes feature then (Inl AlreadyPassing, st)
          else if \<not> locked then (Inl LockFailed, st)
          else (let old_priority = to_number (priority feature);
                    new_priority = next_priority st
                in (Inr (Skipped feature_id (name feature) old_priority new_priority),
                    update_priority st feature_id new_priority)))"

text \<open>The entries of the argument of \<^verbatim>\<open>feature_create_bulk\<close>.\<close>

record bulk_item =
  item_category :: string
  item_name :: string
  item_description :: string
  item_steps :: "string list"
  depends_on_indices :: "int list option"

definition indices_of :: "bulk_item \<Rightarrow> int list" where
  "indices_of it = (case depends_on_indices it of None \<Rightarrow> [] | Some xs \<Rightarrow> xs)"

text \<open>The first pass: the checks on the entry at index \<open>i\<close>, in the order of the source.\<close>

definition check_index :: "nat \<Rightarrow> int \<Rightarrow> tool_error option" where
  "check_index i idx =
     (if idx < 0 then Some (InvalidIndex i idx)
      else if idx \<ge> int i then Some (ForwardReference i idx)
      else None)"

fun first_error :: "('a \<Rightarrow> tool_error option) \<Rightarrow> 'a list \<Rightarrow> tool_error option" where
  "first_error chk [] = None"
| "first_error chk (x # xs) = (case chk x of Some e \<Rightarrow> Some e | None \<Rightarrow> first_error chk xs)"

definition validate_item :: "nat \<times> bulk_item \<Rightarrow> tool_error option" where
  "validate_item p =
     (case p of (i, feature_data) \<Rightarrow>
        if item_category feature_data = [] \<or> item_name feature_data = []
           \<or> item_description feature_data = []
        then Some (MissingFields i)
        else (let indices = indices_of feature_data
              in if length indices > 0
                 then (if length indices > MAX_DEPENDENCIES
                       then Some (TooManyIndices i (length indices))
                       else if card (set indices) \<noteq> length indices
                       then Some (DuplicateIndices i)
                       else first_error (check_index i) indices)
                 else None))"

text \<open>The second pass: one insert per entry, with priority \<^verbatim>\<open>start_priority + i\<close>.\<close>

fun insert_all :: "store \<Rightarrow> int \<Rightarrow> int list \<Rightarrow> (nat \<times> bulk_item) list \<Rightarrow> int list \<times> store" where
  "insert_all st start_priority created_features [] = (created_features, st)"
| "insert_all st start_priority created_features ((i, feature_data) # rest) =
     (let (new_id, st') = insert_feature st (js_add start_priority (int i))
                            (item_category feature_data) (item_name feature_data)
                            (item_description feature_data) (item_steps feature_data)
      in insert_all st' start_priority (created_features @ [new_id]) rest)"

text \<open>The third pass: the indices become the ids created for them, sorted ascending.\<close>

fun resolve_indices :: "int list \<Rightarrow> store \<Rightarrow> nat \<Rightarrow> (nat \<times> bulk_item) list \<Rightarrow> nat \<times> store" where
  "resolve_indices created_features st deps_count [] = (deps_count, st)"
| "resolve_indices created_features st deps_count ((i, feature_data) # rest) =
     (let indices = indices_of feature_data
      in if length indices > 0
         then (let dep_ids = sort (map (\<lambda>idx. created_features ! nat idx) indices)
               in resolve_indices created_features
                    (update_dependencies st (created_features ! i) (Some dep_ids))
                    (deps_count + 1) rest)
         else resolve_indices created_features st deps_count rest)"

definition feature_create_bulk :: "bool \<Rightarrow> store \<Rightarrow> bulk_item list \<Rightarrow> response \<times> store" where
  "feature_create_bulk locked st features =
     (let indexed = zip [0..<length features] features
      in case first_error validate_item indexed of
           Some e \<Rightarrow> (Inl e, st)
         | None \<Rightarrow>
             if \<not> locked then (Inl LockFailed, st)
             else (let start_priority = next_priority st;
                       (created_features, st1) = insert_all st start_priority [] indexed;
                       (deps_count, st2) = resolve_indices created_features st1 0 indexed
                   in (Inr (CreatedBulk (length created_features) deps_count), st2)))"

text \<open>\<^verbatim>\<open>feature_add_dependency\<close>\<close>

definition feature_add_dependency :: "store \<Rightarrow> int \<Rightarrow> int \<Rightarrow> response \<times> store" where
  "feature_add_dependency st feature_id dependency_id =
     (if feature_id = dependency_id then (Inl SelfDependency, st)
      else case select_by_id st feature_id of
             [] \<Rightarrow> (Inl (NotFound feature_id), st)
           | feature # _ \<Rightarrow>
               (case select_by_id st dependency_id of
                  [] \<Rightarrow> (Inl (DependencyFeatureNotFound dependency_id), st)
                | _ # _ \<Rightarrow>
                    (let current_deps = deps feature
                     in if length current_deps \<ge> MAX_DEPENDENCIES then (Inl TooManyDependencies, st)
                        else if dependency_id \<in> set current_deps then (Inl DependencyExists, st)
                        else if would_create_circular_dependency (rows st) feature_id dependency_id
                        then (Inl CircularDependency, st)
                        else (let sorted_deps = sort (current_deps @ [dependency_id])
                              in (Inr (Dependencies feature_id sorted_deps),
                                  update_dependencies st feature_id (Some sorted_deps))))))"

text \<open>\<^verbatim>\<open>feature_remove_dependency\<close>\<close>

definition feature_remove_dependency :: "store \<Rightarrow> int \<Rightarrow> int \<Rightarrow> response \<times> store" where
  "feature_remove_dependency st feature_id dependency_id =
     (case select_by_id st feature_id of
        [] \<Rightarrow> (Inl (NotFound feature_id), st)
      | feature # _ \<Rightarrow>
          (let current_deps = deps feature
           in if dependency_id \<notin> set current_deps then (Inl DependencyMissing, st)
              else (let updated_deps = filter (\<lambda>d. d \<noteq> dependency_id) current_deps;
                        deps_to_save = (if length updated_deps > 0 then Some updated_deps else None)
                    in (Inr (Dependencies feature_id updated_deps),
                        update_dependencies st feature_id deps_to_save))))"

text \<open>\<^verbatim>\<open>feature_set_dependencies\<close>\<close>

definition feature_set_dependencies :: "store \<Rightarrow> int \<Rightarrow> int list \<Rightarrow> response \<times> store" where
  "feature_set_dependencies st feature_id dependency_ids =
     (if feature_id \<in> set dependency_ids then (Inl SelfDependency, st)
      else if length dependency_ids > MAX_DEPENDENCIES then (Inl TooManyDependencies, st)
      else if card (set dependency_ids) \<noteq> length dependency_ids then (Inl DuplicateDependencies, st)
      else case select_by_id st feature_id of
             [] \<Rightarrow> (Inl (NotFound feature_id), st)
           | _ # _ \<Rightarrow>
               (let all_feature_ids = set (map fid (rows st));
                    missing = filter (\<lambda>d. d \<notin> all_feature_ids) dependency_ids
                in if length missing > 0 then (Inl (DependenciesNotFound missing), st)
                   else (let test_features =
                               map (\<lambda>f. if fid f = feature_id
                                         then f\<lparr>dependencies := Some dependency_ids\<rparr> else f)
                                 (rows st)
                         in case find (\<lambda>dep_id. would_create_circular_dependency
                                                   test_features feature_id dep_id) dependency_ids of
                              Some dep_id \<Rightarrow> (Inl (CircularDependencyOn dep_id), st)
                            | None \<Rightarrow>
                                (let sorted_deps = (if length dependency_ids > 0
                                                    then sort dependency_ids else []);
                                     deps_to_save = (if length sorted_deps > 0
                                                     then Some sorted_deps else None)
                                 in (Inr (Dependencies feature_id sorted_deps),
                                     update_dependencies st feature_id deps_to_save)))))"

section \<open>Verification of the topological sorter\<close>

lemma feature_map_Some_iff:
  assumes "distinct (map fid fs)"
  shows "feature_map fs k = Some f \<longleftrightarrow> f \<in> set fs \<and> fid f = k"
proof -
  have "distinct (map fst (rev (map (\<lambda>f. (fid f, f)) fs)))"
    using assms by (simp add: rev_map [symmetric] comp_def)
  then have "map_of (rev (map (\<lambda>f. (fid f, f)) fs)) k = Some f
      \<longleftrightarrow> (k, f) \<in> set (rev (map (\<lambda>f. (fid f, f)) fs))"
    by (rule map_of_eq_Some_iff)
  then show ?thesis by (auto simp: feature_map_def)
qed

lemma feature_map_None_iff: "feature_map fs k = None \<longleftrightarrow> k \<notin> fid ` set fs"
  using feature_map_dom [of fs] by blast

lemma get_or_zero_update [simp]:
  "get_or_zero (AList.update k v al) k' = (if k' = k then v else get_or_zero al k')"
  by (simp add: get_or_zero_def update_conv')

lemma keys_update: "fst ` set (AList.update k v al) = insert k (fst ` set al)"
  by (simp add: dom_update)

lemma map_of_get_or_zero:
  "k \<in> fst ` set al \<Longrightarrow> map_of al k = Some (get_or_zero al k)"
  by (cases "map_of al k") (auto simp: get_or_zero_def map_of_eq_None_iff)

text \<open>Number of dependency entries of a feature that point into the snapshot.\<close>

definition present_deps :: "Feature list \<Rightarrow> Feature \<Rightarrow> int list" where
  "present_deps fs f = filter (\<lambda>d. d \<in> fid ` set fs) (deps f)"

lemma add_edge_fold_in_degree:
  "get_or_zero (in_degree (fold (add_edge fm f) ds g)) k =
     get_or_zero (in_degree g) k
       + (if k = fid f then int (length (filter (\<lambda>d. fm d \<noteq> None) ds)) else 0)"
  by (induction ds arbitrary: g) (auto simp: add_edge_def Let_def split: option.splits)

lemma add_edge_fold_keys:
  "fst ` set (in_degree g) \<subseteq> fst ` set (in_degree (fold (add_edge fm f) ds g))"
proof (induction ds arbitrary: g)
  case Nil
  then show ?case by simp
next
  case (Cons d ds)
  have "fst ` set (in_degree g) \<subseteq> fst ` set (in_degree (add_edge fm f d g))"
    by (auto simp: add_edge_def Let_def keys_update split: option.splits)
  with Cons [of "add_edge fm f d g"] show ?case by auto
qed

lemma add_edge_fold_adjacency_count:
  "count_list (get_or_empty (adjacency (fold (add_edge fm f) ds g)) d) v =
     count_list (get_or_empty (adjacency g) d) v
       + (if v = fid f \<and> fm d \<noteq> None then count_list ds d else 0)"
  by (induction ds arbitrary: g)
     (auto simp: add_edge_def Let_def get_or_empty_def split: option.splits)

lemma add_edge_fold_adjacency_set:
  "set (get_or_empty (adjacency (fold (add_edge fm f) ds g)) d)
     \<subseteq> insert (fid f) (set (get_or_empty (adjacency g) d))"
proof (induction ds arbitrary: g)
  case Nil
  then show ?case by auto
next
  case (Cons x ds)
  have "set (get_or_empty (adjacency (add_edge fm f x g)) d)
          \<subseteq> insert (fid f) (set (get_or_empty (adjacency g) d))"
    by (auto simp: add_edge_def Let_def get_or_empty_def split: option.splits if_splits)
  with Cons [of "add_edge fm f x g"] show ?case by auto
qed

definition build_step :: "(int \<rightharpoonup> Feature) \<Rightarrow> Feature \<Rightarrow> graph \<Rightarrow> graph" where
  "build_step fm feature = fold (add_edge fm feature) (deps feature)"

lemma build_fold_in_degree:
  "distinct (map fid xs) \<Longrightarrow>
   get_or_zero (in_degree (fold (build_step fm) xs g)) k =
     get_or_zero (in_degree g) k
       + (case find (\<lambda>f. fid f = k) xs of None \<Rightarrow> 0
          | Some f \<Rightarrow> int (length (filter (\<lambda>d. fm d \<noteq> None) (deps f))))"
proof (induction xs arbitrary: g)
  case Nil
  then show ?case by simp
next
  case (Cons x xs)
  then have "find (\<lambda>f. fid f = fid x) xs = None"
    by (auto simp: find_None_iff image_iff)
  with Cons.IH [of "build_step fm x g"] Cons.prems show ?case
    by (cases "k = fid x") (simp_all add: build_step_def add_edge_fold_in_degree)
qed

lemma build_fold_keys:
  "fst ` set (in_degree g) \<subseteq> fst ` set (in_degree (fold (build_step fm) xs g))"
proof (induction xs arbitrary: g)
  case Nil
  then show ?case by simp
next
  case (Cons x xs)
  from add_edge_fold_keys [of g fm x "deps x"] Cons [of "build_step fm x g"]
  show ?case by (auto simp: build_step_def)
qed

lemma build_fold_adjacency_count:
  "distinct (map fid xs) \<Longrightarrow>
   count_list (get_or_empty (adjacency (fold (build_step fm) xs g)) d) v =
     count_list (get_or_empty (adjacency g) d) v
       + (case find (\<lambda>f. fid f = v) xs of None \<Rightarrow> 0
          | Some f \<Rightarrow> if fm d \<noteq> None then count_list (deps f) d else 0)"
proof (induction xs arbitrary: g)
  case Nil
  then show ?case by simp
next
  case (Cons x xs)
  then have "find (\<lambda>f. fid f = fid x) xs = None"
    by (auto simp: find_None_iff image_iff)
  with Cons.IH [of "build_step fm x g"] Cons.prems show ?case
    by (cases "v = fid x") (simp_all add: build_step_def add_edge_fold_adjacency_count)
qed

lemma build_fold_adjacency_set:
  "set (get_or_empty (adjacency (fold (build_step fm) xs g)) d)
     \<subseteq> fid ` set xs \<union> set (get_or_empty (adjacency g) d)"
proof (induction xs arbitrary: g)
  case Nil
  then show ?case by simp
next
  case (Cons x xs)
  from add_edge_fold_adjacency_set [of fm x "deps x" g d] Cons [of "build_step fm x g"]
  show ?case by (auto simp: build_step_def)
qed

lemma find_distinct_fid:
  "distinct (map fid xs) \<Longrightarrow> f \<in> set xs \<Longrightarrow> find (\<lambda>g. fid g = fid f) xs = Some f"
  by (induction xs) (auto simp: image_iff)

lemma init_in_degree_keys:
  "fst ` set (fold (\<lambda>f. AList.update (fid f) 0) xs al) = fid ` set xs \<union> fst ` set al"
  by (induction xs arbitrary: al) (auto simp: keys_update)

lemma init_in_degree_zero:
  "get_or_zero (fold (\<lambda>f. AList.update (fid f) 0) xs al) k
     = (if k \<in> fid ` set xs then 0 else get_or_zero al k)"
  by (induction xs arbitrary: al) auto

lemma build_graph_in_degree:
  assumes "distinct (map fid fs)" "f \<in> set fs"
  shows "map_of (in_degree (build_graph fs)) (fid f) = Some (int (length (present_deps fs f)))"
proof -
  let ?g = "build_graph fs"
  have k: "fid f \<in> fst ` set (in_degree ?g)"
    using build_fold_keys [of "init_graph fs" "feature_map fs" fs] assms(2)
    by (auto simp: build_graph_def build_step_def [abs_def] init_graph_def init_in_degree_keys)
  have "(\<lambda>d. feature_map fs d \<noteq> None) = (\<lambda>d. d \<in> fid ` set fs)"
    by (simp add: feature_map_None_iff)
  then have "get_or_zero (in_degree ?g) (fid f) = int (length (present_deps fs f))"
    using build_fold_in_degree [OF assms(1), of "feature_map fs" "init_graph fs" "fid f"]
      find_distinct_fid [OF assms] assms(2)
    by (simp add: build_graph_def build_step_def [abs_def] present_deps_def
        init_graph_def init_in_degree_zero)
  with map_of_get_or_zero [OF k] show ?thesis by simp
qed

lemma build_graph_adjacency_count:
  assumes "distinct (map fid fs)" "f \<in> set fs"
  shows "count_list (get_or_empty (adjacency (build_graph fs)) d) (fid f)
           = (if d \<in> fid ` set fs then count_list (deps f) d else 0)"
proof -
  have "get_or_empty (adjacency (init_graph fs)) d = []"
    by (auto simp: init_graph_def get_or_empty_def split: option.splits dest: map_of_SomeD)
  then show ?thesis
    using build_fold_adjacency_count [OF assms(1), of "feature_map fs" "init_graph fs" d "fid f"]
      find_distinct_fid [OF assms]
    by (simp add: build_graph_def build_step_def [abs_def] feature_map_None_iff)
qed

lemma build_graph_adjacency_set:
  "set (get_or_empty (adjacency (build_graph fs)) d) \<subseteq> fid ` set fs"
proof -
  have "get_or_empty (adjacency (init_graph fs)) d = []"
    by (auto simp: init_graph_def get_or_empty_def split: option.splits dest: map_of_SomeD)
  then show ?thesis
    using build_fold_adjacency_set [of "feature_map fs" fs "init_graph fs" d]
    by (simp add: build_graph_def build_step_def [abs_def])
qed

lemma relax_ok:
  assumes "\<forall>v\<in>set ds. fm v \<noteq> None"
    and "\<forall>v\<in>set ds. int (count_list ds v) \<le> get_or_zero deg v"
  shows "\<exists>deg' pids. relax fm ds deg heap = Inr (deg', heap @ map (\<lambda>v. the (fm v)) pids)
           \<and> (\<forall>k. get_or_zero deg' k = get_or_zero deg k - int (count_list ds k))
           \<and> distinct pids
           \<and> set pids = {v \<in> set ds. get_or_zero deg v = int (count_list ds v)}"
  using assms
proof (induction ds arbitrary: deg heap)
  case Nil
  show ?case by (rule exI [of _ deg], rule exI [of _ "[]"]) simp
next
  case (Cons d ds)
  let ?n = "get_or_zero deg d - 1"
  let ?deg1 = "AList.update d ?n deg"
  from Cons.prems(2) have dn: "int (count_list ds d) \<le> ?n" by simp
  have A: "\<forall>v\<in>set ds. fm v \<noteq> None" using Cons.prems(1) by simp
  have B: "\<forall>v\<in>set ds. int (count_list ds v) \<le> get_or_zero ?deg1 v"
    using Cons.prems(2) dn by auto
  obtain f where f: "fm d = Some f" using Cons.prems(1) by auto
  show ?case
  proof (cases "?n = 0")
    case True
    with dn have "count_list ds d = 0" by simp
    then have dnotin: "d \<notin> set ds" by (simp add: count_list_0_iff)
    from Cons.IH [OF A B, of "heap @ [f]"] obtain deg' pids where
      r: "relax fm ds ?deg1 (heap @ [f]) = Inr (deg', (heap @ [f]) @ map (\<lambda>v. the (fm v)) pids)"
      and g: "\<forall>k. get_or_zero deg' k = get_or_zero ?deg1 k - int (count_list ds k)"
      and dp: "distinct pids"
      and sp: "set pids = {v \<in> set ds. get_or_zero ?deg1 v = int (count_list ds v)}"
      by blast
    have 1: "relax fm (d # ds) deg heap = Inr (deg', heap @ map (\<lambda>v. the (fm v)) (d # pids))"
      using r True f by (simp add: Let_def)
    have 2: "\<forall>k. get_or_zero deg' k = get_or_zero deg k - int (count_list (d # ds) k)"
      using g by auto
    have 3: "distinct (d # pids)" using dp sp dnotin by auto
    have 4: "set (d # pids) = {v \<in> set (d # ds). get_or_zero deg v = int (count_list (d # ds) v)}"
      using sp dnotin True \<open>count_list ds d = 0\<close> by auto
    from 1 2 3 4 show ?thesis by blast
  next
    case False
    from Cons.IH [OF A B, of heap] obtain deg' pids where
      r: "relax fm ds ?deg1 heap = Inr (deg', heap @ map (\<lambda>v. the (fm v)) pids)"
      and g: "\<forall>k. get_or_zero deg' k = get_or_zero ?deg1 k - int (count_list ds k)"
      and dp: "distinct pids"
      and sp: "set pids = {v \<in> set ds. get_or_zero ?deg1 v = int (count_list ds v)}"
      by blast
    have 1: "relax fm (d # ds) deg heap = Inr (deg', heap @ map (\<lambda>v. the (fm v)) pids)"
      using r False by (simp add: Let_def)
    have 2: "\<forall>k. get_or_zero deg' k = get_or_zero deg k - int (count_list (d # ds) k)"
      using g by auto
    have "d \<in> set ds" if "?n = int (count_list ds d)"
      using that False by (cases "count_list ds d = 0") (auto simp: count_list_0_iff)
    then have 4: "set pids = {v \<in> set (d # ds). get_or_zero deg v = int (count_list (d # ds) v)}"
      using sp by auto
    from 1 2 dp 4 show ?thesis by blast
  qed
qed

definition remaining_deps :: "Feature list \<Rightarrow> Feature list \<Rightarrow> Feature \<Rightarrow> int list" where
  "remaining_deps fs done f =
     filter (\<lambda>d. d \<in> fid ` set fs \<and> d \<notin> fid ` set done) (deps f)"

lemma filter_length_remove:
  "P a \<Longrightarrow> int (length (filter (\<lambda>d. P d \<and> d \<noteq> a) xs))
     = int (length (filter P xs)) - int (count_list xs a)"
  by (induction xs) auto

lemma remaining_deps_snoc:
  assumes "fid m \<in> fid ` set fs" "fid m \<notin> fid ` set done"
  shows "int (length (remaining_deps fs (done @ [m]) f))
           = int (length (remaining_deps fs done f)) - int (count_list (deps f) (fid m))"
proof -
  have "remaining_deps fs (done @ [m]) f
          = filter (\<lambda>d. (d \<in> fid ` set fs \<and> d \<notin> fid ` set done) \<and> d \<noteq> fid m) (deps f)"
    unfolding remaining_deps_def by (rule filter_cong) auto
  then show ?thesis
    using filter_length_remove [of "\<lambda>d. d \<in> fid ` set fs \<and> d \<notin> fid ` set done" "fid m" "deps f"] assms
    by (simp add: remaining_deps_def)
qed

definition kahn_inv :: "Feature list \<Rightarrow> (int \<times> int) list \<Rightarrow> Feature list \<Rightarrow> Feature list \<Rightarrow> bool" where
  "kahn_inv fs deg heap ordered \<longleftrightarrow>
     distinct (ordered @ heap) \<and> set (ordered @ heap) \<subseteq> set fs \<and>
     (\<forall>f\<in>set fs. get_or_zero deg (fid f) = int (length (remaining_deps fs ordered f))) \<and>
     (\<forall>f\<in>set fs. f \<in> set (ordered @ heap) \<longleftrightarrow> remaining_deps fs ordered f = [])"

definition feature_key :: "Feature \<Rightarrow> int \<times> int" where
  "feature_key f = (priority f, fid f)"

lemma feature_less_key: "feature_less a b \<longleftrightarrow> feature_key a < feature_key b"
  by (auto simp: feature_less_def feature_key_def less_prod_def)

lemma heap_top_least:
  "feature_key (heap_top m xs) \<le> feature_key m \<and>
   (\<forall>g\<in>set xs. feature_key (heap_top m xs) \<le> feature_key g)"
proof (induction xs arbitrary: m)
  case Nil
  then show ?case by simp
next
  case (Cons x xs)
  let ?m1 = "if feature_less x m then x else m"
  from Cons [of ?m1] have ih: "feature_key (heap_top ?m1 xs) \<le> feature_key ?m1"
    "\<forall>g\<in>set xs. feature_key (heap_top ?m1 xs) \<le> feature_key g" by simp_all
  have "feature_key ?m1 \<le> feature_key m" "feature_key ?m1 \<le> feature_key x"
    by (auto simp: feature_less_key)
  with ih show ?case by (auto intro: order_trans)
qed

lemma heap_pop_SomeD:
  assumes "heap_pop heap = Some (m, heap')"
  shows "m \<in> set heap" "heap' = remove1 m heap" "\<forall>g\<in>set heap. \<not> feature_less g m"
proof -
  from assms obtain x xs where h: "heap = x # xs"
    by (cases heap) (auto simp: heap_pop_def)
  with assms have m: "m = heap_top x xs" and h': "heap' = remove1 m heap"
    by (auto simp: heap_pop_def Let_def)
  show "m \<in> set heap" using heap_top_mem [of x xs] m h by simp
  show "heap' = remove1 m heap" by (rule h')
  show "\<forall>g\<in>set heap. \<not> feature_less g m"
    using heap_top_least [of x xs] m h by (auto simp: feature_less_key not_less)
qed

lemma heap_pop_None: "heap_pop heap = None \<longleftrightarrow> heap = []"
  by (cases heap) (auto simp: heap_pop_def Let_def)

lemma kahn_step:
  assumes dist: "distinct (map fid fs)"
    and inv: "kahn_inv fs deg heap ordered"
    and pop: "heap_pop heap = Some (m, heap')"
  shows "\<exists>deg' heap''.
           relax (feature_map fs) (get_or_empty (adjacency (build_graph fs)) (fid m)) deg heap'
             = Inr (deg', heap'')
           \<and> kahn_inv fs deg' heap'' (ordered @ [m])"
proof -
  let ?fm = "feature_map fs"
  let ?ds = "get_or_empty (adjacency (build_graph fs)) (fid m)"
  let ?rem = "remaining_deps fs ordered"
  let ?rem' = "remaining_deps fs (ordered @ [m])"
  note p = heap_pop_SomeD [OF pop]
  from inv have d0: "distinct (ordered @ heap)" and sub: "set (ordered @ heap) \<subseteq> set fs"
    and degs: "\<forall>f\<in>set fs. get_or_zero deg (fid f) = int (length (?rem f))"
    and mem: "\<forall>f\<in>set fs. f \<in> set (ordered @ heap) \<longleftrightarrow> ?rem f = []"
    by (simp_all add: kahn_inv_def)
  have inj: "inj_on fid (set fs)" using dist by (simp add: distinct_map)
  have m_fs: "m \<in> set fs" using p(1) sub by auto
  have m_notin: "m \<notin> set ordered" using d0 p(1) by auto
  have fidm: "fid m \<in> fid ` set fs" using m_fs by simp
  have fidm_notin: "fid m \<notin> fid ` set ordered"
  proof
    assume "fid m \<in> fid ` set ordered"
    then obtain x where x: "x \<in> set ordered" "fid x = fid m" by auto
    with sub m_fs inj have "x = m" by (auto dest: inj_onD)
    with x m_notin show False by simp
  qed
  have cnt: "count_list ?ds (fid f) = count_list (deps f) (fid m)" if "f \<in> set fs" for f
    using build_graph_adjacency_count [OF dist that, of "fid m"] fidm by simp
  have rem: "int (length (?rem' f)) = int (length (?rem f)) - int (count_list (deps f) (fid m))" for f
    by (rule remaining_deps_snoc [OF fidm fidm_notin])
  have ds_fs: "\<exists>f\<in>set fs. v = fid f" if "v \<in> set ?ds" for v
    using build_graph_adjacency_set [of fs "fid m"] that by auto
  have A: "\<forall>v\<in>set ?ds. ?fm v \<noteq> None"
    using ds_fs by (auto simp: feature_map_None_iff)
  have B: "\<forall>v\<in>set ?ds. int (count_list ?ds v) \<le> get_or_zero deg v"
  proof
    fix v assume "v \<in> set ?ds"
    then obtain f where f: "f \<in> set fs" "v = fid f" using ds_fs by blast
    have "0 \<le> int (length (?rem' f))" by simp
    with rem [of f] degs f cnt [OF f(1)] show "int (count_list ?ds v) \<le> get_or_zero deg v"
      by simp
  qed
  from relax_ok [OF A B, of heap'] obtain deg' pids where
    r: "relax ?fm ?ds deg heap' = Inr (deg', heap' @ map (\<lambda>v. the (?fm v)) pids)"
    and g: "\<forall>k. get_or_zero deg' k = get_or_zero deg k - int (count_list ?ds k)"
    and dp: "distinct pids"
    and sp: "set pids = {v \<in> set ?ds. get_or_zero deg v = int (count_list ?ds v)}"
    by blast
  let ?pushed = "map (\<lambda>v. the (?fm v)) pids"
  have the_fm: "the (?fm (fid f)) = f" if "f \<in> set fs" for f
    using feature_map_Some_iff [OF dist, of "fid f" f] that by simp
  have pushed_set: "set ?pushed = {f \<in> set fs. ?rem f \<noteq> [] \<and> ?rem' f = []}"
  proof (intro set_eqI iffI)
    fix f assume "f \<in> set ?pushed"
    then obtain v where v: "v \<in> set pids" "f = the (?fm v)" by auto
    with sp have vds: "v \<in> set ?ds" and veq: "get_or_zero deg v = int (count_list ?ds v)"
      by auto
    from ds_fs [OF vds] obtain f' where f': "f' \<in> set fs" "v = fid f'" by blast
    with v the_fm have ff: "f = f'" by simp
    from vds have pos: "0 < count_list ?ds v" by (metis count_list_0_iff gr0I)
    from veq degs f' cnt [OF f'(1)]
    have e: "int (length (?rem f')) = int (count_list (deps f') (fid m))" by simp
    with pos f' cnt [OF f'(1)] have "?rem f' \<noteq> []" by auto
    moreover from e rem [of f'] have "?rem' f' = []" by simp
    ultimately show "f \<in> {f \<in> set fs. ?rem f \<noteq> [] \<and> ?rem' f = []}"
      using ff f' by simp
  next
    fix f assume "f \<in> {f \<in> set fs. ?rem f \<noteq> [] \<and> ?rem' f = []}"
    then have f: "f \<in> set fs" "?rem f \<noteq> []" "?rem' f = []" by simp_all
    from rem [of f] f(3) have e: "int (length (?rem f)) = int (count_list (deps f) (fid m))"
      by simp
    moreover have "0 < length (?rem f)" using f(2) by simp
    ultimately have "count_list ?ds (fid f) \<noteq> 0" using cnt [OF f(1)] by linarith
    then have "fid f \<in> set ?ds" by (simp add: count_list_0_iff)
    moreover have "get_or_zero deg (fid f) = int (count_list ?ds (fid f))"
      using degs f(1) e cnt [OF f(1)] by simp
    ultimately have "fid f \<in> set pids" using sp by simp
    then have "the (?fm (fid f)) \<in> set ?pushed" by (simp add: image_iff) blast
    then show "f \<in> set ?pushed" using the_fm [OF f(1)] by simp
  qed
  have rem_mono: "?rem' f = []" if "?rem f = []" for f
  proof -
    have "int (length (?rem' f)) \<le> 0" using rem [of f] that by simp
    then show ?thesis by simp
  qed
  have dh': "distinct heap'" "set heap' = set heap - {m}"
    using d0 p(2) by (simp_all add: set_remove1_eq)
  have old_set: "set (ordered @ [m]) \<union> set heap' = set (ordered @ heap)"
    using dh' p(1) by auto
  have d_old: "distinct ((ordered @ [m]) @ heap')"
    using d0 dh' m_notin by auto
  have "inj_on (\<lambda>v. the (?fm v)) (set pids)"
  proof (rule inj_on_inverseI [where g = fid])
    fix v assume "v \<in> set pids"
    with sp have "v \<in> set ?ds" by simp
    from ds_fs [OF this] obtain f where "f \<in> set fs" "v = fid f" by blast
    then show "fid (the (?fm v)) = v" using the_fm by simp
  qed
  with dp have d_pushed: "distinct ?pushed" by (simp add: distinct_map)
  have disj: "set ?pushed \<inter> set (ordered @ heap) = {}"
    using pushed_set mem by auto
  have 1: "distinct ((ordered @ [m]) @ heap' @ ?pushed)"
    using d_old d_pushed disj old_set by auto
  have 2: "set ((ordered @ [m]) @ heap' @ ?pushed) \<subseteq> set fs"
    using sub old_set pushed_set by auto
  have 3: "\<forall>f\<in>set fs. get_or_zero deg' (fid f) = int (length (?rem' f))"
    using g degs cnt rem by simp
  have 4: "\<forall>f\<in>set fs. f \<in> set ((ordered @ [m]) @ heap' @ ?pushed) \<longleftrightarrow> ?rem' f = []"
  proof
    fix f assume f: "f \<in> set fs"
    have "f \<in> set ((ordered @ [m]) @ heap' @ ?pushed)
            \<longleftrightarrow> f \<in> set (ordered @ heap) \<or> f \<in> set ?pushed"
      using old_set by auto
    also have "\<dots> \<longleftrightarrow> ?rem f = [] \<or> (?rem f \<noteq> [] \<and> ?rem' f = [])"
      using mem f pushed_set by simp
    also have "\<dots> \<longleftrightarrow> ?rem' f = []"
      using rem_mono [of f] by blast
    finally show "f \<in> set ((ordered @ [m]) @ heap' @ ?pushed) \<longleftrightarrow> ?rem' f = []" .
  qed
  have "kahn_inv fs deg' (heap' @ ?pushed) (ordered @ [m])"
    unfolding kahn_inv_def using 1 2 3 4 by blast
  with r show ?thesis by blast
qed

definition greedy_from :: "Feature list \<Rightarrow> Feature list \<Rightarrow> nat \<Rightarrow> bool" where
  "greedy_from fs res n \<longleftrightarrow>
     (\<forall>i. n \<le> i \<and> i < length res \<longrightarrow>
        (\<forall>g\<in>set fs. g \<notin> set (take i res) \<and> remaining_deps fs (take i res) g = []
           \<longrightarrow> \<not> feature_less g (res ! i)))"

lemma kahn_loop_correct:
  assumes "distinct (map fid fs)" "fm = feature_map fs" "adj = adjacency (build_graph fs)"
    and "kahn_inv fs deg heap ordered"
  shows "\<exists>res. kahn_loop fm adj deg heap ordered = Inr res
           \<and> (\<exists>deg'. kahn_inv fs deg' [] res)
           \<and> take (length ordered) res = ordered \<and> length ordered \<le> length res
           \<and> greedy_from fs res (length ordered)"
  using assms
proof (induction fm adj deg heap ordered rule: kahn_loop.induct)
  case (1 fm adj deg heap ordered)
  show ?case
  proof (cases "heap_pop heap")
    case None
    then have "heap = []" by (simp add: heap_pop_None)
    with None "1.prems"(4) show ?thesis
      by (subst kahn_loop.simps) (auto simp: greedy_from_def)
  next
    case (Some x2)
    obtain m heap' where x2: "x2 = (m, heap')" by (cases x2)
    with Some have pop: "heap_pop heap = Some (m, heap')" by simp
    from kahn_step [OF "1.prems"(1) "1.prems"(4) pop] "1.prems"(2,3)
    obtain deg' heap'' where
      r: "relax fm (get_or_empty adj (fid m)) deg heap' = Inr (deg', heap'')"
      and inv': "kahn_inv fs deg' heap'' (ordered @ [m])"
      by auto
    from "1.IH" [OF Some x2 [symmetric] r refl "1.prems"(1,2,3) inv']
    obtain res where
      k: "kahn_loop fm adj deg' heap'' (ordered @ [m]) = Inr res"
      and fin: "\<exists>deg'. kahn_inv fs deg' [] res"
      and tk: "take (length (ordered @ [m])) res = ordered @ [m]"
      and le: "length (ordered @ [m]) \<le> length res"
      and gr: "greedy_from fs res (length (ordered @ [m]))"
      by blast
    have k0: "kahn_loop fm adj deg heap ordered = Inr res"
      using pop r k by (subst kahn_loop.simps) simp
    have tk0: "take (length ordered) res = ordered"
    proof -
      have "take (length ordered) (take (length (ordered @ [m])) res) = take (length ordered) res"
        by (simp add: min_def)
      with tk show ?thesis by simp
    qed
    have nth: "res ! length ordered = m"
    proof -
      have "res ! length ordered = take (length (ordered @ [m])) res ! length ordered"
        by simp
      also have "\<dots> = m" using tk by simp
      finally show ?thesis .
    qed
    have here: "\<not> feature_less g m"
      if "g \<in> set fs" "g \<notin> set ordered" "remaining_deps fs ordered g = []" for g
    proof -
      from "1.prems"(4) that have "g \<in> set heap" by (auto simp: kahn_inv_def)
      with heap_pop_SomeD(3) [OF pop] show ?thesis by blast
    qed
    have gr0: "greedy_from fs res (length ordered)"
      unfolding greedy_from_def
    proof (intro allI impI ballI)
      fix i g
      assume i: "length ordered \<le> i \<and> i < length res" and g: "g \<in> set fs"
        and a: "g \<notin> set (take i res) \<and> remaining_deps fs (take i res) g = []"
      show "\<not> feature_less g (res ! i)"
      proof (cases "i = length ordered")
        case True
        with a tk0 nth here [OF g] show ?thesis by simp
      next
        case False
        with i have "length (ordered @ [m]) \<le> i \<and> i < length res" by simp
        with gr g a show ?thesis unfolding greedy_from_def by blast
      qed
    qed
    from k0 fin tk0 le gr0 show ?thesis by auto
  qed
qed

lemma remaining_deps_Nil: "remaining_deps fs [] f = present_deps fs f"
  by (simp add: remaining_deps_def present_deps_def)

lemma kahn_inv_init:
  assumes "distinct (map fid fs)"
  shows "kahn_inv fs (in_degree (build_graph fs))
           (filter (\<lambda>f. map_of (in_degree (build_graph fs)) (fid f) = Some 0) fs) []"
proof -
  have d: "distinct fs" using assms by (simp add: distinct_map)
  have z: "get_or_zero (in_degree (build_graph fs)) (fid f) = int (length (present_deps fs f))"
    and s: "map_of (in_degree (build_graph fs)) (fid f) = Some 0 \<longleftrightarrow> present_deps fs f = []"
    if "f \<in> set fs" for f
    using build_graph_in_degree [OF assms that] by (simp_all add: get_or_zero_def)
  show ?thesis
    unfolding kahn_inv_def using d z s by (auto simp: remaining_deps_Nil)
qed

text \<open>The part of the order produced by Kahn's loop, before the residue is appended.\<close>

definition kahn_order :: "Feature list \<Rightarrow> error + Feature list" where
  "kahn_order features =
     (let g = build_graph features
      in kahn_loop (feature_map features) (adjacency g) (in_degree g)
           (filter (\<lambda>f. map_of (in_degree g) (fid f) = Some 0) features) [])"

lemma kahn_order_correct:
  assumes "distinct (map fid fs)"
  shows "\<exists>res. kahn_order fs = Inr res \<and> distinct res \<and> set res \<subseteq> set fs
           \<and> (\<forall>f\<in>set fs. f \<in> set res \<longleftrightarrow> remaining_deps fs res f = [])
           \<and> greedy_from fs res 0"
proof -
  from kahn_loop_correct [OF assms refl refl kahn_inv_init [OF assms]]
  show ?thesis
    unfolding kahn_order_def Let_def kahn_inv_def by auto
qed

lemma resolve_dependencies_complete:
  assumes "distinct (map fid fs)" "kahn_order fs = Inr res" "set res = set fs"
  shows "resolve_dependencies stack fs =
           Inr \<lparr>ordered_features = res, circular_dependencies = [],
                blocked_features = blocked (build_graph fs),
                missing_dependencies = missing (build_graph fs)\<rparr>"
proof -
  from kahn_order_correct [OF assms(1)] assms(2) have d: "distinct res" by auto
  have dfs: "distinct fs" using assms(1) by (simp add: distinct_map)
  have "length res = card (set res)" using d by (simp only: distinct_card)
  also have "\<dots> = length fs" using dfs assms(3) by (simp only: distinct_card)
  finally have "\<not> length res < length fs" by simp
  then show ?thesis
    using assms(2) unfolding resolve_dependencies_def kahn_order_def Let_def by simp
qed

lemma resolve_dependencies_residue:
  assumes "kahn_order fs = Inr res" "length res < length fs"
  shows "resolve_dependencies stack fs =
           (case detect_cycles stack (filter (\<lambda>f. f \<notin> set res) fs) of
              Inl e \<Rightarrow> Inl e
            | Inr found_cycles \<Rightarrow>
                Inr \<lparr>ordered_features = res @ filter (\<lambda>f. f \<notin> set res) fs,
                     circular_dependencies = found_cycles,
                     blocked_features = blocked (build_graph fs),
                     missing_dependencies = missing (build_graph fs)\<rparr>)"
  using assms unfolding resolve_dependencies_def kahn_order_def Let_def by simp

lemma residue_permutation:
  assumes "distinct fs" "distinct res" "set res \<subseteq> set fs"
  shows "distinct (res @ filter (\<lambda>f. f \<notin> set res) fs)"
    and "set (res @ filter (\<lambda>f. f \<notin> set res) fs) = set fs"
    and "length (res @ filter (\<lambda>f. f \<notin> set res) fs) = length fs"
proof -
  show 1: "distinct (res @ filter (\<lambda>f. f \<notin> set res) fs)" using assms by auto
  show 2: "set (res @ filter (\<lambda>f. f \<notin> set res) fs) = set fs" using assms by auto
  from 1 have "length (res @ filter (\<lambda>f. f \<notin> set res) fs)
      = card (set (res @ filter (\<lambda>f. f \<notin> set res) fs))"
    by (simp only: distinct_card)
  also have "\<dots> = card (set fs)" by (simp only: 2)
  also have "\<dots> = length fs" using assms(1) by (simp only: distinct_card)
  finally show "length (res @ filter (\<lambda>f. f \<notin> set res) fs) = length fs" .
qed

text \<open>The dependency edges between features of the snapshot: \<open>(a, b)\<close> when feature \<open>a\<close>
  lists \<open>b\<close> and \<open>b\<close> is the id of a feature of the snapshot.\<close>

definition dep_rel :: "Feature list \<Rightarrow> (int \<times> int) set" where
  "dep_rel fs = set (concat (map (\<lambda>f. map (\<lambda>d. (fid f, d)) (present_deps fs f)) fs))"

lemma dep_rel_iff:
  "(a, b) \<in> dep_rel fs \<longleftrightarrow> (\<exists>f\<in>set fs. fid f = a \<and> b \<in> set (deps f) \<and> b \<in> fid ` set fs)"
  by (auto simp: dep_rel_def present_deps_def)

lemma kahn_order_complete:
  assumes dist: "distinct (map fid fs)" and acyc: "acyclic (dep_rel fs)"
    and k: "kahn_order fs = Inr res"
  shows "set res = set fs"
proof (rule ccontr)
  assume ne: "set res \<noteq> set fs"
  from kahn_order_correct [OF dist] k
  have sub: "set res \<subseteq> set fs"
    and mem: "\<forall>f\<in>set fs. f \<in> set res \<longleftrightarrow> remaining_deps fs res f = []"
    by auto
  let ?S = "fid ` (set fs - set res)"
  from ne sub obtain f0 where "f0 \<in> set fs - set res" by auto
  then have x: "fid f0 \<in> ?S" by blast
  have "finite (dep_rel fs)" by (simp add: dep_rel_def)
  with acyc have "wf ((dep_rel fs)\<inverse>)" by (rule finite_acyclic_wf_converse [rotated])
  from wfE_min [OF this x] obtain z where z: "z \<in> ?S"
    and zmin: "\<And>y. (y, z) \<in> (dep_rel fs)\<inverse> \<Longrightarrow> y \<notin> ?S"
    by blast
  from z obtain f where f: "f \<in> set fs" "f \<notin> set res" "z = fid f" by auto
  with mem have "remaining_deps fs res f \<noteq> []" by blast
  then obtain d where "d \<in> set (remaining_deps fs res f)"
    by (cases "remaining_deps fs res f") auto
  then have d: "d \<in> set (deps f)" "d \<in> fid ` set fs" "d \<notin> fid ` set res"
    by (auto simp: remaining_deps_def)
  then obtain f' where f': "f' \<in> set fs" "d = fid f'" by auto
  with d(3) have "f' \<notin> set res" by auto
  with f' have "d \<in> ?S" by blast
  moreover have "(z, d) \<in> dep_rel fs" using f d by (auto simp: dep_rel_iff)
  ultimately show False using zmin [of d] by simp
qed

text \<open>
  Claim C3 (priority order of the sort). On an acyclic snapshot with unique ids
  \<^verbatim>\<open>resolve_dependencies\<close> returns, whatever the room on the call stack, and its output
  is ascending in the heap order (priority, then id) wherever the dependencies allow it:
  whenever a feature stands behind one that it precedes in the heap order, one of its
  dependencies inside the snapshot had not been emitted yet at the earlier position.
  In particular three independent features with priorities 10, 5, 1 come out as 3, 2, 1.
\<close>

theorem resolve_dependencies_priority_order:
  "(distinct (map fid features) \<and> acyclic (dep_rel features) \<longrightarrow>
      (\<exists>r. resolve_dependencies stack features = Inr r \<and>
         (\<forall>i j. i < j \<and> j < length (ordered_features r)
                 \<and> feature_less (ordered_features r ! j) (ordered_features r ! i)
            \<longrightarrow> (\<exists>d\<in>set (deps (ordered_features r ! j)).
                   d \<in> fid ` set features \<and> d \<notin> fid ` set (take i (ordered_features r))))))
   \<and> (\<exists>r. resolve_dependencies stack
              [new_Feature 1 10 False False None, new_Feature 2 5 False False None,
               new_Feature 3 1 False False None] = Inr r
          \<and> map fid (ordered_features r) = [3, 2, 1])"
proof (intro conjI impI)
  assume a: "distinct (map fid features) \<and> acyclic (dep_rel features)"
  then have dist: "distinct (map fid features)" and acyc: "acyclic (dep_rel features)"
    by simp_all
  from kahn_order_correct [OF dist] obtain res where
    k: "kahn_order features = Inr res" and d: "distinct res"
    and gr: "greedy_from features res 0"
    by blast
  have all: "set res = set features" by (rule kahn_order_complete [OF dist acyc k])
  from resolve_dependencies_complete [OF dist k all, of stack] obtain r where
    r: "resolve_dependencies stack features = Inr r"
    and o': "ordered_features r = res"
    by simp
  have "\<exists>d\<in>set (deps (res ! j)). d \<in> fid ` set features \<and> d \<notin> fid ` set (take i res)"
    if ij: "i < j" "j < length res" and less: "feature_less (res ! j) (res ! i)" for i j
  proof -
    have g: "res ! j \<in> set features" using ij all by (metis nth_mem)
    have "res ! j \<notin> set (take i res)"
    proof
      assume "res ! j \<in> set (take i res)"
      then obtain n where n: "n < length (take i res)" "take i res ! n = res ! j"
        by (auto simp: in_set_conv_nth)
      then have "n < i" "n < length res" "res ! n = res ! j" using ij by auto
      with d ij show False by (auto simp: nth_eq_iff_index_eq)
    qed
    with gr g less ij have "remaining_deps features (take i res) (res ! j) \<noteq> []"
      unfolding greedy_from_def by (metis less_trans zero_le)
    then obtain x where "x \<in> set (remaining_deps features (take i res) (res ! j))"
      by (cases "remaining_deps features (take i res) (res ! j)") auto
    then show ?thesis by (auto simp: remaining_deps_def)
  qed
  with r o' show "\<exists>r. resolve_dependencies stack features = Inr r \<and>
         (\<forall>i j. i < j \<and> j < length (ordered_features r)
                 \<and> feature_less (ordered_features r ! j) (ordered_features r ! i)
            \<longrightarrow> (\<exists>d\<in>set (deps (ordered_features r ! j)).
                   d \<in> fid ` set features \<and> d \<notin> fid ` set (take i (ordered_features r))))"
    by auto
next
  show "\<exists>r. resolve_dependencies stack
              [new_Feature 1 10 False False None, new_Feature 2 5 False False None,
               new_Feature 3 1 False False None] = Inr r
          \<and> map fid (ordered_features r) = [3, 2, 1]"
  proof -
    let ?fs = "[new_Feature 1 10 False False None, new_Feature 2 5 False False None,
               new_Feature 3 1 False False None]"
    have dist: "distinct (map fid ?fs)" by (simp add: new_Feature_def)
    have "case kahn_order ?fs of Inl e \<Rightarrow> False | Inr res \<Rightarrow> map fid res = [3, 2, 1]"
      by code_simp
    then obtain res where k: "kahn_order ?fs = Inr res" and m: "map fid res = [3, 2, 1]"
      by (auto split: sum.splits)
    from kahn_order_correct [OF dist] k have d: "distinct res" and sub: "set res \<subseteq> set ?fs"
      by auto
    from m have "length (map fid res) = 3" by simp
    then have "length res = 3" by simp
    with d have "card (set res) = 3" by (simp add: distinct_card)
    moreover have "card (set ?fs) = 3" by (simp add: new_Feature_def)
    ultimately have "set res = set ?fs" using sub by (intro card_seteq) simp_all
    from resolve_dependencies_complete [OF dist k this, of stack] m show ?thesis by simp
  qed
qed

definition snapshot_chain :: "Feature list" where
  "snapshot_chain =
     [new_Feature 1 10 False False None, new_Feature 2 5 False False (Some [1]),
      new_Feature 3 1 False False (Some [2]), new_Feature 4 7 False False None]"

lemma acyclic_decreasing:
  assumes "\<forall>(a, b)\<in>r. 0 \<le> b \<and> b < (a::int)"
  shows "acyclic r"
proof -
  have "r\<inverse> \<subseteq> int_ge_less_than 0" using assms by (auto simp: int_ge_less_than_def)
  then have "wf (r\<inverse>)" by (rule wf_subset [OF wf_int_ge_less_than])
  then have "acyclic (r\<inverse>)" by (rule wf_acyclic)
  then show ?thesis by simp
qed

lemma dep_rel_snapshot_chain: "dep_rel snapshot_chain = {(2, 1), (3, 2)}"
  by (simp add: dep_rel_def snapshot_chain_def new_Feature_def present_deps_def deps_def)

theorem resolve_dependencies_priority_order_witness:
  "distinct (map fid snapshot_chain) \<and> acyclic (dep_rel snapshot_chain) \<and>
   (\<exists>r. resolve_dependencies 100 snapshot_chain = Inr r
      \<and> map fid (ordered_features r) = [4, 1, 2, 3]
      \<and> (1::nat) < 2 \<and> 2 < length (ordered_features r)
      \<and> feature_less (ordered_features r ! 2) (ordered_features r ! 1)
      \<and> (\<exists>d\<in>set (deps (ordered_features r ! 2)).
            d \<in> fid ` set snapshot_chain \<and> d \<notin> fid ` set (take 1 (ordered_features r))))"
proof -
  have h1: "distinct (map fid snapshot_chain)"
    by (simp add: snapshot_chain_def new_Feature_def)
  have h2: "acyclic (dep_rel snapshot_chain)"
    by (rule acyclic_decreasing) (simp add: dep_rel_snapshot_chain)
  from resolve_dependencies_priority_order [of snapshot_chain 100] h1 h2
  obtain r where r: "resolve_dependencies 100 snapshot_chain = Inr r"
    and ord: "\<forall>i j. i < j \<and> j < length (ordered_features r)
                 \<and> feature_less (ordered_features r ! j) (ordered_features r ! i)
            \<longrightarrow> (\<exists>d\<in>set (deps (ordered_features r ! j)).
                   d \<in> fid ` set snapshot_chain
                   \<and> d \<notin> fid ` set (take i (ordered_features r)))"
    by blast
  have "case resolve_dependencies 100 snapshot_chain of
          Inl e \<Rightarrow> False
        | Inr r \<Rightarrow> map fid (ordered_features r) = [4, 1, 2, 3]
            \<and> feature_less (ordered_features r ! 2) (ordered_features r ! 1)"
    by code_simp
  with r have c: "map fid (ordered_features r) = [4, 1, 2, 3]"
    "feature_less (ordered_features r ! 2) (ordered_features r ! 1)"
    by simp_all
  from c(1) have "length (map fid (ordered_features r)) = 4" by simp
  then have len: "length (ordered_features r) = 4" by simp
  with c(2) have "(1::nat) < 2 \<and> 2 < length (ordered_features r)
      \<and> feature_less (ordered_features r ! 2) (ordered_features r ! 1)"
    by simp
  with ord have "\<exists>d\<in>set (deps (ordered_features r ! 2)).
            d \<in> fid ` set snapshot_chain \<and> d \<notin> fid ` set (take 1 (ordered_features r))"
    by blast
  with h1 h2 r c len show ?thesis by simp
qed

section \<open>Verification of the cycle detector\<close>

lemma dfs_enter_visited [simp]: "visited (dfs_enter st i) = insert i (visited st)"
  by (simp add: dfs_enter_def)

lemma dfs_leave_visited [simp]: "visited (dfs_leave st i) = visited st"
  by (simp add: dfs_leave_def)

text \<open>With more room on the stack than unvisited features the traversal returns.\<close>

lemma dfs_returns:
  "i \<notin> visited st \<Longrightarrow> card (fid ` set fs - visited st) < k \<Longrightarrow>
     \<exists>b st'. dfs k fs st i = Inr (b, st') \<and> visited st \<subseteq> visited st'"
  "card (fid ` set fs - visited st) < k \<Longrightarrow>
     \<exists>b st'. dfs_loop k fs st ds = Inr (b, st') \<and> visited st \<subseteq> visited st'"
proof (induction k fs st i and k fs st ds rule: dfs_dfs_loop.induct)
  case (1 features st i)
  then show ?case by simp
next
  case (2 stack features st i)
  show ?case
  proof (cases "feature_map features i")
    case None
    then show ?thesis by (auto simp: Let_def)
  next
    case (Some feature)
    then have "i \<in> fid ` set features" using feature_map_dom [of features] by blast
    with "2.prems"(1) have m: "i \<in> fid ` set features - visited st" by simp
    have "fid ` set features - visited (dfs_enter st i) = (fid ` set features - visited st) - {i}"
      by auto
    then have "card (fid ` set features - visited (dfs_enter st i))
                 = card (fid ` set features - visited st) - 1"
      using m by (simp add: card_Diff_singleton)
    moreover have "0 < card (fid ` set features - visited st)"
      using m by (auto simp: card_gt_0_iff)
    ultimately have "card (fid ` set features - visited (dfs_enter st i)) < stack"
      using "2.prems"(2) by arith
    from "2.IH" [OF refl Some this] obtain b st2 where
      l: "dfs_loop stack features (dfs_enter st i) (deps feature) = Inr (b, st2)"
      and v: "visited (dfs_enter st i) \<subseteq> visited st2"
      by blast
    from v have "visited st \<subseteq> visited st2" by auto
    with l Some show ?thesis by (cases b) (auto simp: Let_def)
  qed
next
  case (3 stack features st)
  show ?case by (rule exI [of _ False]) simp
next
  case (4 stack features st dep_id rest)
  show ?case
  proof (cases "dep_id \<notin> visited st")
    case True
    from "4.IH"(1) [OF True True "4.prems"] obtain b st1 where
      r: "dfs stack features st dep_id = Inr (b, st1)" and v: "visited st \<subseteq> visited st1"
      by blast
    show ?thesis
    proof (cases b)
      case True
      with r v \<open>dep_id \<notin> visited st\<close> show ?thesis by auto
    next
      case False
      have "card (fid ` set features - visited st1) \<le> card (fid ` set features - visited st)"
        using v by (intro card_mono) auto
      with "4.prems" have c1: "card (fid ` set features - visited st1) < stack" by simp
      from False have bf: "b = False" by simp
      from "4.IH"(2) [OF True r refl bf c1] obtain b' st' where
        "dfs_loop stack features st1 rest = Inr (b', st')" "visited st1 \<subseteq> visited st'"
        by blast
      with r v False True show ?thesis by auto
    qed
  next
    case False
    show ?thesis
    proof (cases "dep_id \<in> rec_stack st")
      case True
      with False show ?thesis by auto
    next
      case nr: False
      from "4.IH"(3) [OF False nr "4.prems"] False nr show ?thesis by simp
    qed
  qed
qed

lemma detect_loop_returns:
  "card (fid ` set fs) < k \<Longrightarrow> \<exists>st'. detect_loop k fs st rest = Inr st'"
proof (induction rest arbitrary: st)
  case Nil
  then show ?case by simp
next
  case (Cons f rest)
  show ?case
  proof (cases "fid f \<notin> visited st")
    case True
    have "card (fid ` set fs - visited st) \<le> card (fid ` set fs)"
      by (intro card_mono) auto
    with Cons.prems have "card (fid ` set fs - visited st) < k" by simp
    from dfs_returns(1) [OF True this] obtain b st1 where
      "dfs k fs st (fid f) = Inr (b, st1)" by blast
    with Cons.IH [OF Cons.prems, of st1] True show ?thesis by simp
  next
    case False
    with Cons.IH [OF Cons.prems, of st] show ?thesis by simp
  qed
qed

lemma detect_cycles_returns:
  "length fs < k \<Longrightarrow> \<exists>cs. detect_cycles k fs = Inr cs"
proof -
  assume "length fs < k"
  moreover have "card (fid ` set fs) \<le> length fs"
    by (metis card_image_le card_length le_trans List.finite_set)
  ultimately have "card (fid ` set fs) < k" by simp
  from detect_loop_returns [OF this] obtain st' where
    "detect_loop k fs \<lparr>visited = {}, rec_stack = {}, path = [], cycles = []\<rparr> fs = Inr st'"
    by blast
  then show ?thesis by (simp add: detect_cycles_def)
qed


text \<open>A chain of \<open>n\<close> features in which feature \<open>i\<close> depends on \<open>i + 1\<close>, and a ring that
  closes the chain.\<close>

definition chain :: "int \<Rightarrow> Feature list" where
  "chain n = map (\<lambda>i. new_Feature i 1 False False (Some [i + 1])) [1..n]"

definition ring :: "int \<Rightarrow> Feature list" where
  "ring n = map (\<lambda>i. new_Feature i 1 False False (Some [if i = n then 1 else i + 1])) [1..n]"

lemma ring_ids: "map fid (ring n) = [1..n]"
  by (simp add: ring_def new_Feature_def comp_def)

lemma ring_map:
  assumes "1 \<le> k" "k \<le> n"
  shows "feature_map (ring n) k
           = Some (new_Feature k 1 False False (Some [if k = n then 1 else k + 1]))"
proof -
  have "distinct (map fid (ring n))" by (simp add: ring_ids)
  from feature_map_Some_iff [OF this] assms show ?thesis
    by (auto simp: ring_def new_Feature_def)
qed

text \<open>On a ring the traversal descends one frame for each feature: started at feature \<open>i\<close>
  with fewer frames than the features from \<open>i\<close> to \<open>n\<close>, it overflows.\<close>

lemma dfs_ring_overflow:
  "1 \<le> i \<Longrightarrow> \<forall>v\<in>visited st. v < i \<Longrightarrow> int k \<le> n - i \<Longrightarrow>
     dfs k (ring n) st i = Inl RangeError"
proof (induction k arbitrary: i st)
  case 0
  show ?case by simp
next
  case (Suc k)
  from Suc.prems(3) have lt: "i < n" by simp
  with Suc.prems(1) have f: "feature_map (ring n) i
           = Some (new_Feature i 1 False False (Some [i + 1]))"
    using ring_map [of i n] by simp
  have nv: "i + 1 \<notin> visited (dfs_enter st i)"
    using Suc.prems(2) by auto
  have "\<forall>v\<in>visited (dfs_enter st i). v < i + 1"
    using Suc.prems(2) by auto
  moreover have "1 \<le> i + 1" using Suc.prems(1) by simp
  moreover have "int k \<le> n - (i + 1)" using Suc.prems(3) by simp
  ultimately have "dfs k (ring n) (dfs_enter st i) (i + 1) = Inl RangeError"
    by (intro Suc.IH)
  with nv have "dfs_loop k (ring n) (dfs_enter st i) [i + 1] = Inl RangeError"
    by simp
  with f show ?case by (simp add: Let_def deps_def new_Feature_def)
qed

lemma detect_cycles_ring_overflow:
  "detect_cycles stack (ring (int stack + 1)) = Inl RangeError"
proof -
  let ?n = "int stack + 1"
  let ?g = "\<lambda>i. new_Feature i 1 False False (Some [if i = ?n then 1 else i + 1])"
  let ?st = "\<lparr>visited = {}, rec_stack = {}, path = [], cycles = []\<rparr>"
  have "[1..?n] = 1 # [2..?n]" by (simp add: upto_rec1)
  then have r: "ring ?n = ?g 1 # map ?g [2..?n]" by (simp add: ring_def)
  have "dfs stack (ring ?n) ?st 1 = Inl RangeError"
    by (rule dfs_ring_overflow) simp_all
  moreover have "fid (?g 1) = 1" by (simp add: new_Feature_def)
  ultimately have "detect_loop stack (ring ?n) ?st (?g 1 # map ?g [2..?n]) = Inl RangeError"
    by simp
  then show ?thesis unfolding detect_cycles_def r [symmetric] by simp
qed

lemma kahn_order_ring:
  assumes "1 \<le> n"
  shows "kahn_order (ring n) = Inr []"
proof -
  have dist: "distinct (map fid (ring n))" by (simp add: ring_ids)
  have ids: "fid ` set (ring n) = {1..n}"
    using ring_ids [of n] by (metis set_map set_upto)
  have "map_of (in_degree (build_graph (ring n))) (fid f) \<noteq> Some 0" if "f \<in> set (ring n)" for f
  proof -
    from that obtain i where i: "1 \<le> i" "i \<le> n"
      "f = new_Feature i 1 False False (Some [if i = n then 1 else i + 1])"
      by (auto simp: ring_def)
    then have "present_deps (ring n) f = [if i = n then 1 else i + 1]"
      unfolding present_deps_def ids by (simp add: deps_def new_Feature_def)
    with build_graph_in_degree [OF dist that] show ?thesis by simp
  qed
  then have "filter (\<lambda>f. map_of (in_degree (build_graph (ring n))) (fid f) = Some 0) (ring n) = []"
    by (simp add: filter_empty_conv)
  then show ?thesis
    by (simp add: kahn_order_def Let_def kahn_loop.simps heap_pop_def)
qed

lemma resolve_dependencies_ring_overflow:
  "resolve_dependencies stack (ring (int stack + 1)) = Inl RangeError"
proof -
  let ?n = "int stack + 1"
  have k: "kahn_order (ring ?n) = Inr []" by (rule kahn_order_ring) simp
  have "length (map fid (ring ?n)) = length [1..?n]" by (simp only: ring_ids)
  then have l: "length [] < length (ring ?n)" by simp
  show ?thesis
    unfolding resolve_dependencies_residue [OF k l]
    by (simp add: detect_cycles_ring_overflow)
qed

text \<open>
  With more frames than features the cycle detector returns, and \<^verbatim>\<open>resolve_dependencies\<close>
  returns the output of Kahn's loop followed by the features the loop left behind, in input
  order: every feature of the snapshot once.
\<close>

lemma resolve_dependencies_returns:
  assumes "distinct (map fid fs)" "length fs < stack"
  shows "\<exists>r res. resolve_dependencies stack fs = Inr r
           \<and> kahn_order fs = Inr res
           \<and> ordered_features r = res @ filter (\<lambda>f. f \<notin> set res) fs
           \<and> length (ordered_features r) = length fs
           \<and> set (map fid (ordered_features r)) = set (map fid fs)
           \<and> distinct (map fid (ordered_features r))"
proof -
  from kahn_order_correct [OF assms(1)] obtain res where
    k: "kahn_order fs = Inr res" and d: "distinct res" and sub: "set res \<subseteq> set fs"
    by blast
  have dfs: "distinct fs" and inj: "inj_on fid (set fs)"
    using assms(1) by (simp_all add: distinct_map)
  note p = residue_permutation [OF dfs d sub]
  have "\<exists>r. resolve_dependencies stack fs = Inr r
          \<and> ordered_features r = res @ filter (\<lambda>f. f \<notin> set res) fs"
  proof (cases "length res < length fs")
    case True
    have "length (filter (\<lambda>f. f \<notin> set res) fs) \<le> length fs" by (rule length_filter_le)
    from this assms(2) have "length (filter (\<lambda>f. f \<notin> set res) fs) < stack"
      by (rule le_less_trans)
    from detect_cycles_returns [OF this] obtain cs where
      "detect_cycles stack (filter (\<lambda>f. f \<notin> set res) fs) = Inr cs" by blast
    then show ?thesis
      unfolding resolve_dependencies_residue [OF k True] by simp
  next
    case False
    have "card (set fs) \<le> card (set res)"
      using False d dfs by (simp add: distinct_card)
    with sub have e: "set res = set fs" by (intro card_seteq) auto
    then have "filter (\<lambda>f. f \<notin> set res) fs = []" by (simp add: filter_empty_conv)
    with resolve_dependencies_complete [OF assms(1) k e, of stack] show ?thesis by simp
  qed
  then obtain r where r: "resolve_dependencies stack fs = Inr r"
    and o: "ordered_features r = res @ filter (\<lambda>f. f \<notin> set res) fs"
    by blast
  have "distinct (map fid (ordered_features r))"
    using p(1,2) inj o by (simp only: distinct_map)
  moreover have "set (map fid (ordered_features r)) = set (map fid fs)"
    using p(2) o by (simp only: set_map)
  ultimately show ?thesis using r k o p(3) by auto
qed

text \<open>
  Claim C1 does not hold of the code. When Kahn's loop leaves features behind,
  \<^verbatim>\<open>resolve_dependencies\<close> calls \<^verbatim>\<open>_detect_cycles\<close>, whose recursion is as deep as the
  dependency path it follows. On a ring of features, a snapshot with unique ids, it needs one
  frame for each feature: whatever the room on the call stack, the ring with one feature
  more than that makes \<^verbatim>\<open>resolve_dependencies\<close> end in a \<^verbatim>\<open>RangeError\<close> instead of
  returning the features.
\<close>

theorem resolve_dependencies_overflows_on_deep_cycle:
  "distinct (map fid (ring (int stack + 1)))
   \<and> resolve_dependencies stack (ring (int stack + 1)) = Inl RangeError"
  by (simp add: ring_ids resolve_dependencies_ring_overflow)

text \<open>
  Claim C5 does not hold of the traversal that reports cycles. A call of \<^verbatim>\<open>can_reach\<close>
  at a depth above \<^verbatim>\<open>MAX_DEPENDENCY_DEPTH\<close> answers true, but \<^verbatim>\<open>_detect_cycles\<close> carries no
  such guard: on a ring of 60 features it descends 60 frames (with room for 59 it
  overflows, with room for 60 it reports the cycle of all 60 ids), and whatever the room on
  the call stack, the ring with one feature more ends in a \<^verbatim>\<open>RangeError\<close>.
\<close>

theorem detect_cycles_has_no_depth_cap:
  "can_reach fm source_id seen current_id (Suc MAX_DEPENDENCY_DEPTH + k) = (True, seen)
   \<and> detect_cycles 59 (ring 60) = Inl RangeError
   \<and> detect_cycles 60 (ring 60) = Inr [[1..60]]
   \<and> detect_cycles stack (ring (int stack + 1)) = Inl RangeError"
proof (intro conjI)
  show "can_reach fm source_id seen current_id (Suc MAX_DEPENDENCY_DEPTH + k) = (True, seen)"
    by (simp add: can_reach.simps)
  show "detect_cycles 59 (ring 60) = Inl RangeError"
    using detect_cycles_ring_overflow [of 59] by simp
  show "detect_cycles 60 (ring 60) = Inr [[1..60]]"
    by code_simp
  show "detect_cycles stack (ring (int stack + 1)) = Inl RangeError"
    by (rule detect_cycles_ring_overflow)
qed

section \<open>Verification of the dependency validator\<close>

lemma can_reach_False:
  "can_reach fm s V c d = (False, V') \<Longrightarrow>
     V \<subseteq> V' \<and> c \<in> V' \<and> (s \<notin> V \<longrightarrow> s \<notin> V') \<and>
     (\<forall>x\<in>V' - V. \<forall>y. (x, y) \<in> dep_edges fm \<longrightarrow> y \<in> V')"
  "can_reach_loop fm s V ds d = (False, V') \<Longrightarrow>
     V \<subseteq> V' \<and> set ds \<subseteq> V' \<and> (s \<notin> V \<longrightarrow> s \<notin> V') \<and>
     (\<forall>x\<in>V' - V. \<forall>y. (x, y) \<in> dep_edges fm \<longrightarrow> y \<in> V')"
proof (induction fm s V c d and fm s V ds d arbitrary: V' and V' rule: can_reach_can_reach_loop.induct)
  case (1 fm s V c d)
  note eq = can_reach.simps [of fm s V c d]
  from "1.prems" have nd: "\<not> d > MAX_DEPENDENCY_DEPTH" 
    by (simp add: eq split: if_splits)
  from "1.prems" have ns: "c \<noteq> s"
    by (simp add: eq split: if_splits)
  show ?case
  proof (cases "c \<in> V")
    case True
    with "1.prems" nd ns have "V' = V" by (simp add: eq)
    with True show ?thesis by simp
  next
    case False
    show ?thesis
    proof (cases "fm c")
      case None
      with "1.prems" nd ns False have "V' = insert c V" by (simp add: eq Let_def)
      moreover have "(c, y) \<notin> dep_edges fm" for y using None by (simp add: dep_edges_def)
      ultimately show ?thesis using ns by auto
    next
      case (Some f)
      with "1.prems" nd ns False
      have l: "can_reach_loop fm s (insert c V) (deps f) d = (False, V')"
        by (simp add: eq Let_def)
      from "1.IH" [OF nd ns False refl Some l]
      have ih: "insert c V \<subseteq> V'" "set (deps f) \<subseteq> V'" "s \<notin> insert c V \<longrightarrow> s \<notin> V'"
        "\<forall>x\<in>V' - insert c V. \<forall>y. (x, y) \<in> dep_edges fm \<longrightarrow> y \<in> V'"
        by blast+
      have cy: "y \<in> V'" if "(c, y) \<in> dep_edges fm" for y
        using Some ih(2) that by (auto simp: dep_edges_def)
      show ?thesis
      proof (intro conjI ballI allI impI)
        show "V \<subseteq> V'" using ih(1) by auto
        show "c \<in> V'" using ih(1) by auto
        show "s \<notin> V'" if "s \<notin> V" using ih(3) that ns by auto
        show "y \<in> V'" if "x \<in> V' - V" "(x, y) \<in> dep_edges fm" for x y
          using that ih(4) cy by (cases "x = c") blast+
      qed
    qed
  qed
next
  case (2 fm s V d)
  then show ?case by simp
next
  case (3 fm s V dep_id rest d)
  obtain b V1 where r: "can_reach fm s V dep_id (d + 1) = (b, V1)"
    by (cases "can_reach fm s V dep_id (d + 1)")
  with "3.prems" have b: "\<not> b" and l: "can_reach_loop fm s V1 rest d = (False, V')"
    by (simp_all split: bool.splits)
  from r b have r': "can_reach fm s V dep_id (d + 1) = (False, V1)" by simp
  from "3.IH"(1) [OF r']
  have i1: "V \<subseteq> V1" "dep_id \<in> V1" "s \<notin> V \<longrightarrow> s \<notin> V1"
    "\<forall>x\<in>V1 - V. \<forall>y. (x, y) \<in> dep_edges fm \<longrightarrow> y \<in> V1" by blast+
  from "3.IH"(2) [OF r' [symmetric] _ l] b
  have i2: "V1 \<subseteq> V'" "set rest \<subseteq> V'" "s \<notin> V1 \<longrightarrow> s \<notin> V'"
    "\<forall>x\<in>V' - V1. \<forall>y. (x, y) \<in> dep_edges fm \<longrightarrow> y \<in> V'" by blast+
  show ?case
  proof (intro conjI ballI allI impI)
    show "V \<subseteq> V'" using i1(1) i2(1) by auto
    show "set (dep_id # rest) \<subseteq> V'" using i1(2) i2(1,2) by auto
    show "s \<notin> V'" if "s \<notin> V" using i1(3) i2(3) that by auto
    show "y \<in> V'" if "x \<in> V' - V" "(x, y) \<in> dep_edges fm" for x y
      using that i1(4) i2(1,4) by (cases "x \<in> V1") blast+
  qed
qed


lemma closed_rtrancl:
  assumes "\<forall>x\<in>W. \<forall>y. (x, y) \<in> E \<longrightarrow> y \<in> W" "a \<in> W" "(a, b) \<in> E\<^sup>*"
  shows "b \<in> W"
  using assms(3,1,2) by (induction rule: rtrancl_induct) blast+

lemma can_reach_sound:
  assumes "can_reach fm s {} t 0 = (False, V')"
  shows "(t, s) \<notin> (dep_edges fm)\<^sup>*"
proof
  assume r: "(t, s) \<in> (dep_edges fm)\<^sup>*"
  from can_reach_False(1) [OF assms]
  have "t \<in> V'" "s \<notin> V'" "\<forall>x\<in>V'. \<forall>y. (x, y) \<in> dep_edges fm \<longrightarrow> y \<in> V'"
    by blast+
  with closed_rtrancl [OF _ _ r, of V'] show False by blast
qed

text \<open>
  When \<^verbatim>\<open>can_reach\<close> answers true, either the source is reached, or the calls have
  descended to depth \<^verbatim>\<open>MAX_DEPENDENCY_DEPTH\<close> + 1 along a dependency path whose nodes,
  but for the last, are distinct, unvisited before and different from the source.
\<close>

lemma can_reach_True_path:
  "can_reach fm s V c d = (True, V') \<Longrightarrow> d \<le> Suc MAX_DEPENDENCY_DEPTH \<Longrightarrow>
     (c, s) \<in> (dep_edges fm)\<^sup>* \<or>
     (\<exists>q. length q = MAX_DEPENDENCY_DEPTH + 2 - d \<and> hd q = c
          \<and> successively (\<lambda>a b. (a, b) \<in> dep_edges fm) q
          \<and> distinct (butlast q) \<and> set (butlast q) \<inter> V = {} \<and> s \<notin> set (butlast q))"
  "can_reach_loop fm s V ds d = (True, V') \<Longrightarrow> d \<le> MAX_DEPENDENCY_DEPTH \<Longrightarrow>
     (\<exists>x\<in>set ds. (x, s) \<in> (dep_edges fm)\<^sup>* \<or>
        (\<exists>q. length q = MAX_DEPENDENCY_DEPTH + 1 - d \<and> hd q = x
             \<and> successively (\<lambda>a b. (a, b) \<in> dep_edges fm) q
             \<and> distinct (butlast q) \<and> set (butlast q) \<inter> V = {} \<and> s \<notin> set (butlast q)))"
proof (induction fm s V c d and fm s V ds d arbitrary: V' and V' rule: can_reach_can_reach_loop.induct)
  case (1 fm s V c d)
  note eq = can_reach.simps [of fm s V c d]
  show ?case
  proof (cases "d > MAX_DEPENDENCY_DEPTH")
    case True
    with "1.prems"(2) have "length [c] = MAX_DEPENDENCY_DEPTH + 2 - d" by simp
    then have "length [c] = MAX_DEPENDENCY_DEPTH + 2 - d \<and> hd [c] = c
          \<and> successively (\<lambda>a b. (a, b) \<in> dep_edges fm) [c]
          \<and> distinct (butlast [c]) \<and> set (butlast [c]) \<inter> V = {} \<and> s \<notin> set (butlast [c])"
      by simp
    then show ?thesis by blast
  next
    case nd: False
    show ?thesis
    proof (cases "c = s")
      case True
      then show ?thesis by simp
    next
      case ns: False
      with "1.prems"(1) nd have nv: "c \<notin> V" by (auto simp: eq split: if_splits)
      with "1.prems"(1) nd ns obtain f where f: "fm c = Some f"
        and l: "can_reach_loop fm s (insert c V) (deps f) d = (True, V')"
        by (cases "fm c") (auto simp: eq Let_def)
      from nd have dle: "d \<le> MAX_DEPENDENCY_DEPTH" by simp
      from "1.IH" [OF nd ns nv refl f l dle] obtain x where x: "x \<in> set (deps f)"
        and alt: "(x, s) \<in> (dep_edges fm)\<^sup>* \<or>
          (\<exists>q. length q = MAX_DEPENDENCY_DEPTH + 1 - d \<and> hd q = x
             \<and> successively (\<lambda>a b. (a, b) \<in> dep_edges fm) q
             \<and> distinct (butlast q) \<and> set (butlast q) \<inter> insert c V = {}
             \<and> s \<notin> set (butlast q))"
        by blast
      have e: "(c, x) \<in> dep_edges fm" using f x by (auto simp: dep_edges_def)
      from alt show ?thesis
      proof
        assume "(x, s) \<in> (dep_edges fm)\<^sup>*"
        with e have "(c, s) \<in> (dep_edges fm)\<^sup>*" by (rule converse_rtrancl_into_rtrancl)
        then show ?thesis by simp
      next
        assume "\<exists>q. length q = MAX_DEPENDENCY_DEPTH + 1 - d \<and> hd q = x
             \<and> successively (\<lambda>a b. (a, b) \<in> dep_edges fm) q
             \<and> distinct (butlast q) \<and> set (butlast q) \<inter> insert c V = {}
             \<and> s \<notin> set (butlast q)"
        then obtain q where q: "length q = MAX_DEPENDENCY_DEPTH + 1 - d" "hd q = x"
          "successively (\<lambda>a b. (a, b) \<in> dep_edges fm) q"
          "distinct (butlast q)" "set (butlast q) \<inter> insert c V = {}" "s \<notin> set (butlast q)"
          by blast
        from q(1) dle have ne: "q \<noteq> []" by auto
        have 1: "length (c # q) = MAX_DEPENDENCY_DEPTH + 2 - d" using q(1) dle by simp
        have 2: "successively (\<lambda>a b. (a, b) \<in> dep_edges fm) (c # q)"
          using ne q(2,3) e by (cases q) simp_all
        have 3: "distinct (butlast (c # q))" using ne q(4,5) by auto
        have 4: "set (butlast (c # q)) \<inter> V = {}" using ne q(5) nv by auto
        have 5: "s \<notin> set (butlast (c # q))" using ne q(6) ns by auto
        from 1 2 3 4 5 have "length (c # q) = MAX_DEPENDENCY_DEPTH + 2 - d \<and> hd (c # q) = c
          \<and> successively (\<lambda>a b. (a, b) \<in> dep_edges fm) (c # q)
          \<and> distinct (butlast (c # q)) \<and> set (butlast (c # q)) \<inter> V = {}
          \<and> s \<notin> set (butlast (c # q))"
          by simp
        then show ?thesis by blast
      qed
    qed
  qed
next
  case (2 fm s V d)
  then show ?case by simp
next
  case (3 fm s V dep_id rest d)
  obtain b V1 where r: "can_reach fm s V dep_id (d + 1) = (b, V1)"
    by (cases "can_reach fm s V dep_id (d + 1)")
  show ?case
  proof (cases b)
    case True
    with r have r': "can_reach fm s V dep_id (d + 1) = (True, V1)" by simp
    from "3.prems"(2) have "d + 1 \<le> Suc MAX_DEPENDENCY_DEPTH" by simp
    from "3.IH"(1) [OF r' this]
    have "(dep_id, s) \<in> (dep_edges fm)\<^sup>* \<or>
        (\<exists>q. length q = MAX_DEPENDENCY_DEPTH + 1 - d \<and> hd q = dep_id
             \<and> successively (\<lambda>a b. (a, b) \<in> dep_edges fm) q
             \<and> distinct (butlast q) \<and> set (butlast q) \<inter> V = {} \<and> s \<notin> set (butlast q))"
      by simp
    then show ?thesis by (intro bexI [of _ dep_id]) simp_all
  next
    case False
    with r have r': "can_reach fm s V dep_id (d + 1) = (False, V1)" by simp
    with "3.prems"(1) have l: "can_reach_loop fm s V1 rest d = (True, V')" by simp
    from can_reach_False(1) [OF r'] have m: "V \<subseteq> V1" by blast
    from "3.IH"(2) [OF r' [symmetric] refl l "3.prems"(2)] obtain x where x: "x \<in> set rest"
      and alt: "(x, s) \<in> (dep_edges fm)\<^sup>* \<or>
        (\<exists>q. length q = MAX_DEPENDENCY_DEPTH + 1 - d \<and> hd q = x
             \<and> successively (\<lambda>a b. (a, b) \<in> dep_edges fm) q
             \<and> distinct (butlast q) \<and> set (butlast q) \<inter> V1 = {} \<and> s \<notin> set (butlast q))"
      by blast
    from alt have "(x, s) \<in> (dep_edges fm)\<^sup>* \<or>
        (\<exists>q. length q = MAX_DEPENDENCY_DEPTH + 1 - d \<and> hd q = x
             \<and> successively (\<lambda>a b. (a, b) \<in> dep_edges fm) q
             \<and> distinct (butlast q) \<and> set (butlast q) \<inter> V = {} \<and> s \<notin> set (butlast q))"
    proof
      assume "(x, s) \<in> (dep_edges fm)\<^sup>*"
      then show ?thesis by (rule disjI1)
    next
      assume "\<exists>q. length q = MAX_DEPENDENCY_DEPTH + 1 - d \<and> hd q = x
             \<and> successively (\<lambda>a b. (a, b) \<in> dep_edges fm) q
             \<and> distinct (butlast q) \<and> set (butlast q) \<inter> V1 = {} \<and> s \<notin> set (butlast q)"
      then obtain q where q: "length q = MAX_DEPENDENCY_DEPTH + 1 - d" "hd q = x"
          "successively (\<lambda>a b. (a, b) \<in> dep_edges fm) q"
          "distinct (butlast q)" "set (butlast q) \<inter> V1 = {}" "s \<notin> set (butlast q)"
        by blast
      from q(5) m have "set (butlast q) \<inter> V = {}" by blast
      with q(1,2,3,4,6) show ?thesis by blast
    qed
    with x show ?thesis by (intro bexI [of _ x]) simp_all
  qed
qed

text \<open>Ids of the snapshot and reachability along the stored dependency lists.\<close>

definition reaches :: "Feature list \<Rightarrow> int \<Rightarrow> int \<Rightarrow> bool" where
  "reaches features a b \<longleftrightarrow> (a, b) \<in> (dep_edges (feature_map features))\<^sup>*"

lemma would_create_self: "would_create_circular_dependency features a a"
  by (simp add: would_create_circular_dependency_def)

lemma would_create_absent:
  "s \<noteq> t \<Longrightarrow> s \<notin> fid ` set features \<or> t \<notin> fid ` set features \<Longrightarrow>
     \<not> would_create_circular_dependency features s t"
  using feature_map_dom [of features]
  by (auto simp: would_create_circular_dependency_def Let_def split: option.splits)

lemma would_create_failsafe:
  assumes "s \<in> fid ` set features" "t \<in> fid ` set features" "reaches features t s"
  shows "would_create_circular_dependency features s t"
proof (rule ccontr)
  assume n: "\<not> would_create_circular_dependency features s t"
  then have ne: "s \<noteq> t" by (auto simp: would_create_circular_dependency_def)
  from assms(1,2) feature_map_dom [of features]
  obtain fs ft where "feature_map features s = Some fs" "feature_map features t = Some ft"
    by blast
  with n ne have "\<not> fst (can_reach (feature_map features) s {} t 0)"
    by (simp add: would_create_circular_dependency_def Let_def)
  then obtain V' where "can_reach (feature_map features) s {} t 0 = (False, V')"
    by (cases "can_reach (feature_map features) s {} t 0") auto
  from can_reach_sound [OF this] assms(3) show False by (simp add: reaches_def)
qed

text \<open>
  A dependency chain of \<^verbatim>\<open>MAX_DEPENDENCY_DEPTH\<close> + 1 links that starts at the target and
  whose nodes, but for the last, are distinct and different from the source: the paths on
  which the traversal can pass the depth cap.
\<close>

definition deep_chain :: "Feature list \<Rightarrow> int \<Rightarrow> int \<Rightarrow> bool" where
  "deep_chain features s t \<longleftrightarrow>
     (\<exists>q. length q = MAX_DEPENDENCY_DEPTH + 2 \<and> hd q = t
        \<and> successively (\<lambda>a b. (a, b) \<in> dep_edges (feature_map features)) q
        \<and> distinct (butlast q) \<and> s \<notin> set (butlast q))"

lemma would_create_True:
  assumes "would_create_circular_dependency features s t" "s \<noteq> t"
  shows "s \<in> fid ` set features \<and> t \<in> fid ` set features
         \<and> (reaches features t s \<or> deep_chain features s t)"
proof -
  let ?fm = "feature_map features"
  from assms would_create_absent [of s t features]
  have p: "s \<in> fid ` set features" "t \<in> fid ` set features" by blast+
  with feature_map_dom [of features]
  obtain fs ft where "?fm s = Some fs" "?fm t = Some ft" by blast
  with assms have "fst (can_reach ?fm s {} t 0)"
    by (simp add: would_create_circular_dependency_def Let_def)
  then obtain V' where "can_reach ?fm s {} t 0 = (True, V')"
    by (cases "can_reach ?fm s {} t 0") auto
  from can_reach_True_path(1) [OF this]
  have "(t, s) \<in> (dep_edges ?fm)\<^sup>* \<or>
     (\<exists>q. length q = MAX_DEPENDENCY_DEPTH + 2 - 0 \<and> hd q = t
          \<and> successively (\<lambda>a b. (a, b) \<in> dep_edges ?fm) q
          \<and> distinct (butlast q) \<and> set (butlast q) \<inter> {} = {} \<and> s \<notin> set (butlast q))"
    by simp
  then have "reaches features t s \<or> deep_chain features s t"
    unfolding reaches_def deep_chain_def by auto
  with p show ?thesis by simp
qed

lemma would_create_exact:
  assumes "\<not> deep_chain features s t"
  shows "would_create_circular_dependency features s t \<longleftrightarrow>
           s = t \<or> (s \<in> fid ` set features \<and> t \<in> fid ` set features \<and> reaches features t s)"
proof (cases "s = t")
  case True
  then show ?thesis by (simp add: would_create_self)
next
  case False
  with would_create_True [of features s t] would_create_failsafe [of s features t] assms
  show ?thesis by blast
qed

text \<open>A list of at most \<^verbatim>\<open>MAX_DEPENDENCY_DEPTH\<close> + 1 features that holds the source has
  no such chain.\<close>

lemma short_no_deep_chain:
  assumes "length features \<le> Suc MAX_DEPENDENCY_DEPTH" "s \<in> fid ` set features"
  shows "\<not> deep_chain features s t"
proof
  let ?fm = "feature_map features"
  assume "deep_chain features s t"
  then obtain q where q: "length q = MAX_DEPENDENCY_DEPTH + 2"
    "successively (\<lambda>a b. (a, b) \<in> dep_edges ?fm) q"
    "distinct (butlast q)" "s \<notin> set (butlast q)"
    by (auto simp: deep_chain_def)
  have "a \<in> fid ` set features" if "a \<in> set (butlast q)" for a
  proof -
    from that obtain i where i: "i < length (butlast q)" "butlast q ! i = a"
      by (auto simp: in_set_conv_nth)
    then have "Suc i < length q" "q ! i = a" by (simp_all add: nth_butlast)
    with q(2) have "(a, q ! Suc i) \<in> dep_edges ?fm"
      by (auto simp: successively_conv_nth)
    then have "a \<in> dom ?fm" by (auto simp: dep_edges_def)
    then show ?thesis by (simp add: feature_map_dom)
  qed
  with q(4) have "set (butlast q) \<subseteq> fid ` set features - {s}" by blast
  then have "card (set (butlast q)) \<le> card (fid ` set features - {s})"
    by (intro card_mono) auto
  also have "\<dots> < card (fid ` set features)"
    using assms(2) by (intro psubset_card_mono) auto
  also have "\<dots> \<le> length features"
    by (metis card_image_le card_length le_trans List.finite_set)
  finally have "card (set (butlast q)) < Suc MAX_DEPENDENCY_DEPTH" using assms(1) by simp
  moreover have "card (set (butlast q)) = Suc MAX_DEPENDENCY_DEPTH"
    using q(1,3) by (simp add: distinct_card)
  ultimately show False by simp
qed

lemma feature_map_SomeD: "feature_map fs k = Some f \<Longrightarrow> f \<in> set fs \<and> fid f = k"
  by (auto simp: feature_map_def dest!: map_of_SomeD)

lemma chain_map:
  assumes "1 \<le> k" "k \<le> n" "n < s"
  shows "feature_map (chain n @ [new_Feature s p False False None]) k
           = Some (new_Feature k 1 False False (Some [k + 1]))"
proof -
  have "map fid (chain n @ [new_Feature s p False False None]) = [1..n] @ [s]"
    by (simp add: chain_def new_Feature_def comp_def)
  then have "distinct (map fid (chain n @ [new_Feature s p False False None]))"
    using assms(3) by simp
  from feature_map_Some_iff [OF this] assms(1,2) show ?thesis
    by (auto simp: chain_def new_Feature_def)
qed

lemma chain_descend:
  assumes "int MAX_DEPENDENCY_DEPTH < n" "n < s"
  shows "1 \<le> k \<Longrightarrow> k \<le> int MAX_DEPENDENCY_DEPTH + 2 \<Longrightarrow> \<forall>v\<in>V. v < k \<Longrightarrow>
           fst (can_reach (feature_map (chain n @ [new_Feature s p False False None])) s V k (nat (k - 1)))"
proof (induction "nat (int MAX_DEPENDENCY_DEPTH + 2 - k)" arbitrary: k V)
  case 0
  then have "MAX_DEPENDENCY_DEPTH < nat (k - 1)" by simp
  then show ?case by (simp add: can_reach.simps)
next
  case (Suc m)
  let ?fm = "feature_map (chain n @ [new_Feature s p False False None])"
  from Suc.hyps(2) Suc.prems have k: "k \<le> int MAX_DEPENDENCY_DEPTH + 1" by simp
  then have nd: "\<not> MAX_DEPENDENCY_DEPTH < nat (k - 1)" by simp
  have ks: "k \<noteq> s" using k assms by simp
  have kv: "k \<notin> V" using Suc.prems(3) by auto
  have f: "?fm k = Some (new_Feature k 1 False False (Some [k + 1]))"
    using chain_map [of k n s p] Suc.prems(1) k assms by simp
  have m: "m = nat (int MAX_DEPENDENCY_DEPTH + 2 - (k + 1))" using Suc.hyps(2) by simp
  have "\<forall>v\<in>insert k V. v < k + 1" using Suc.prems(3) by auto
  from Suc.hyps(1) [OF m _ _ this] Suc.prems(1) k
  have "fst (can_reach ?fm s (insert k V) (k + 1) (nat (k + 1 - 1)))" by simp
  moreover have "nat (k + 1 - 1) = nat (k - 1) + 1" using Suc.prems(1) by simp
  ultimately have "fst (can_reach ?fm s (insert k V) (k + 1) (nat (k - 1) + 1))" by simp
  then show ?case
    using nd ks kv f
    by (subst can_reach.simps)
       (auto simp: Let_def deps_def new_Feature_def split: prod.splits bool.splits)
qed

lemma chain_no_path:
  assumes "0 \<le> n" "n + 1 < s"
  shows "\<not> reaches (chain n @ [new_Feature s p False False None]) 1 s"
proof
  let ?fs = "chain n @ [new_Feature s p False False None]"
  assume "reaches ?fs 1 s"
  then have r: "(1, s) \<in> (dep_edges (feature_map ?fs))\<^sup>*" by (simp add: reaches_def)
  have "\<forall>x\<in>{1..n + 1}. \<forall>y. (x, y) \<in> dep_edges (feature_map ?fs) \<longrightarrow> y \<in> {1..n + 1}"
  proof (intro ballI allI impI)
    fix x y assume "x \<in> {1..n + 1}" and e: "(x, y) \<in> dep_edges (feature_map ?fs)"
    then obtain f where "feature_map ?fs x = Some f" "y \<in> set (deps f)"
      by (auto simp: dep_edges_def)
    with feature_map_SomeD [of ?fs x f] show "y \<in> {1..n + 1}"
      by (auto simp: chain_def new_Feature_def deps_def)
  qed
  from closed_rtrancl [OF this _ r] assms show False by simp
qed


lemma would_create_chain:
  assumes "int MAX_DEPENDENCY_DEPTH < n" "n + 1 < s"
  shows "would_create_circular_dependency (chain n @ [new_Feature s p False False None]) s 1"
proof -
  let ?fs = "chain n @ [new_Feature s p False False None]"
  have "map fid ?fs = [1..n] @ [s]"
    by (simp add: chain_def new_Feature_def comp_def)
  then have "distinct (map fid ?fs)" using assms(2) by simp
  from feature_map_Some_iff [OF this, of s "new_Feature s p False False None"]
  have 1: "feature_map ?fs s = Some (new_Feature s p False False None)"
    by (simp add: new_Feature_def)
  have 2: "feature_map ?fs 1 = Some (new_Feature 1 1 False False (Some [1 + 1]))"
    using assms by (intro chain_map) simp_all
  have "fst (can_reach (feature_map ?fs) s {} 1 (nat (1 - 1)))"
    using assms by (intro chain_descend) simp_all
  with 1 2 show ?thesis
    by (simp add: would_create_circular_dependency_def Let_def)
qed

lemma dep_edges_feature_map:
  "feature_map fs a = Some f \<Longrightarrow> b \<in> set (deps f) \<Longrightarrow> (a, b) \<in> dep_edges (feature_map fs)"
  by (auto simp: dep_edges_def)

text \<open>
  Claim C4, as stated, fails in two places. With a chain of 51 features below the target
  the traversal reaches depth 51 and answers true, although the target cannot reach the
  source. And when the source is not a feature of the list the answer is false, although
  the dependency list of the target names it.
\<close>

theorem would_create_not_exact_counterexample:
  "would_create_circular_dependency (chain 51 @ [new_Feature 100 1 False False None]) 100 1
   \<and> (100::int) \<noteq> 1
   \<and> \<not> reaches (chain 51 @ [new_Feature 100 1 False False None]) 1 100
   \<and> \<not> would_create_circular_dependency [new_Feature 1 1 False False (Some [5])] 5 1
   \<and> (5::int) \<noteq> 1
   \<and> reaches [new_Feature 1 1 False False (Some [5])] 1 5"
proof -
  have "(1, 5) \<in> dep_edges (feature_map [new_Feature 1 1 False False (Some [5])])"
    by (rule dep_edges_feature_map [where f = "new_Feature 1 1 False False (Some [5])"])
       (simp_all add: feature_map_def new_Feature_def deps_def)
  then have r: "reaches [new_Feature 1 1 False False (Some [5])] 1 5"
    unfolding reaches_def by (rule r_into_rtrancl)
  have n: "\<not> would_create_circular_dependency [new_Feature 1 1 False False (Some [5])] 5 1"
    by code_simp
  from would_create_chain [of 51 100 1] chain_no_path [of 51 100 1] r n
  show ?thesis by (simp add: MAX_DEPENDENCY_DEPTH_def)
qed

text \<open>
  Claim C4, amended. \<^verbatim>\<open>would_create_circular_dependency\<close> answers true when source and
  target are equal; for different ids it answers false when one of them is not in the list;
  when both are in the list it answers true whenever the target reaches the source along
  the stored dependency lists, and exactly then unless a dependency chain of 51 links
  starts at the target and runs through 51 distinct features other than the source (only
  there can the traversal pass the depth cap and answer true without a path). A list of at
  most 51 features that holds the source has no such chain; on a chain of more than 50
  features below the target and a source beside it the answer is true without a path.
  With the edge 1 \<rightarrow> 2 the call
  (2, 1) is true; the call (3, 1) is false for an id 3 that is not in the list and for a
  feature 3 without edges beside an independent feature 1.
\<close>

theorem would_create_circular_dependency_spec:
  "would_create_circular_dependency features a a
   \<and> (s \<noteq> t \<and> (s \<notin> fid ` set features \<or> t \<notin> fid ` set features)
        \<longrightarrow> \<not> would_create_circular_dependency features s t)
   \<and> (s \<in> fid ` set features \<and> t \<in> fid ` set features \<and> reaches features t s
        \<longrightarrow> would_create_circular_dependency features s t)
   \<and> (\<not> deep_chain features s t
        \<longrightarrow> (would_create_circular_dependency features s t \<longleftrightarrow>
               s = t \<or> (s \<in> fid ` set features \<and> t \<in> fid ` set features
                         \<and> reaches features t s)))
   \<and> (length features \<le> Suc MAX_DEPENDENCY_DEPTH \<and> s \<in> fid ` set features
        \<longrightarrow> \<not> deep_chain features s t)
   \<and> (int MAX_DEPENDENCY_DEPTH < n \<and> n + 1 < u
        \<longrightarrow> would_create_circular_dependency
              (chain n @ [new_Feature u p False False None]) u 1
            \<and> \<not> reaches (chain n @ [new_Feature u p False False None]) 1 u)
   \<and> would_create_circular_dependency
         [new_Feature 1 999 False False (Some [2]), new_Feature 2 999 False False None] 2 1
   \<and> \<not> would_create_circular_dependency
         [new_Feature 1 999 False False None, new_Feature 2 999 False False (Some [1])] 3 1
   \<and> \<not> would_create_circular_dependency
         [new_Feature 1 999 False False None, new_Feature 2 999 False False None,
          new_Feature 3 999 False False None] 3 1"
proof (intro conjI impI)
  show "would_create_circular_dependency features a a" by (rule would_create_self)
  show "\<not> would_create_circular_dependency features s t"
    if "s \<noteq> t \<and> (s \<notin> fid ` set features \<or> t \<notin> fid ` set features)"
    using that would_create_absent [of s t features] by blast
  show "would_create_circular_dependency features s t"
    if "s \<in> fid ` set features \<and> t \<in> fid ` set features \<and> reaches features t s"
    using that would_create_failsafe [of s features t] by blast
  show "would_create_circular_dependency features s t \<longleftrightarrow>
          s = t \<or> (s \<in> fid ` set features \<and> t \<in> fid ` set features \<and> reaches features t s)"
    if "\<not> deep_chain features s t"
    using that by (rule would_create_exact)
  show "\<not> deep_chain features s t"
    if "length features \<le> Suc MAX_DEPENDENCY_DEPTH \<and> s \<in> fid ` set features"
    using that short_no_deep_chain [of features s t] by blast
  show "would_create_circular_dependency (chain n @ [new_Feature u p False False None]) u 1"
    if "int MAX_DEPENDENCY_DEPTH < n \<and> n + 1 < u"
    using that by (intro would_create_chain) simp_all
  show "\<not> reaches (chain n @ [new_Feature u p False False None]) 1 u"
    if "int MAX_DEPENDENCY_DEPTH < n \<and> n + 1 < u"
    using that by (intro chain_no_path) simp_all
  show "would_create_circular_dependency
         [new_Feature 1 999 False False (Some [2]), new_Feature 2 999 False False None] 2 1"
    by code_simp
  show "\<not> would_create_circular_dependency
         [new_Feature 1 999 False False None, new_Feature 2 999 False False (Some [1])] 3 1"
    by code_simp
  show "\<not> would_create_circular_dependency
         [new_Feature 1 999 False False None, new_Feature 2 999 False False None,
          new_Feature 3 999 False False None] 3 1"
    by code_simp
qed

definition snapshot_line :: "Feature list" where
  "snapshot_line =
     [new_Feature 1 1 False False (Some [2]), new_Feature 2 2 False False (Some [3]),
      new_Feature 3 3 False False None]"

lemma reaches_snapshot_line: "reaches snapshot_line 1 3"
proof -
  have "(1, 2) \<in> dep_edges (feature_map snapshot_line)"
    by (rule dep_edges_feature_map [where f = "new_Feature 1 1 False False (Some [2])"])
       (simp_all add: snapshot_line_def feature_map_def new_Feature_def deps_def)
  moreover have "(2, 3) \<in> dep_edges (feature_map snapshot_line)"
    by (rule dep_edges_feature_map [where f = "new_Feature 2 2 False False (Some [3])"])
       (simp_all add: snapshot_line_def feature_map_def new_Feature_def deps_def)
  ultimately show ?thesis unfolding reaches_def by (meson rtrancl.simps)
qed

theorem would_create_circular_dependency_spec_witness:
  "(3::int) \<noteq> 1 \<and> (4::int) \<noteq> 1 \<and> 4 \<notin> fid ` set snapshot_line
   \<and> \<not> would_create_circular_dependency snapshot_line 4 1
   \<and> 3 \<in> fid ` set snapshot_line \<and> 1 \<in> fid ` set snapshot_line
   \<and> reaches snapshot_line 1 3
   \<and> length snapshot_line \<le> Suc MAX_DEPENDENCY_DEPTH
   \<and> \<not> deep_chain snapshot_line 3 1
   \<and> int MAX_DEPENDENCY_DEPTH < 60 \<and> (60::int) + 1 < 100
   \<and> would_create_circular_dependency (chain 60 @ [new_Feature 100 1 False False None]) 100 1
   \<and> \<not> reaches (chain 60 @ [new_Feature 100 1 False False None]) 1 100
   \<and> would_create_circular_dependency snapshot_line 3 1
   \<and> (would_create_circular_dependency snapshot_line 3 1 \<longleftrightarrow>
        (3::int) = 1 \<or> (3 \<in> fid ` set snapshot_line \<and> 1 \<in> fid ` set snapshot_line
                         \<and> reaches snapshot_line 1 3))"
proof -
  have ids: "fid ` set snapshot_line = {1, 2, 3}"
    by (simp add: snapshot_line_def new_Feature_def)
  have len: "length snapshot_line \<le> Suc MAX_DEPENDENCY_DEPTH"
    by (simp add: snapshot_line_def MAX_DEPENDENCY_DEPTH_def)
  have cap: "int MAX_DEPENDENCY_DEPTH < 60"
    by (simp add: MAX_DEPENDENCY_DEPTH_def)
  note absent = would_create_circular_dependency_spec
    [where features = snapshot_line and a = 1 and s = 4 and t = 1 and n = 60 and u = 100
       and p = 1]
  note present = would_create_circular_dependency_spec
    [where features = snapshot_line and a = 1 and s = 3 and t = 1 and n = 60 and u = 100
       and p = 1]
  from absent ids have a: "\<not> would_create_circular_dependency snapshot_line 4 1"
    by simp
  from present ids reaches_snapshot_line
  have b: "would_create_circular_dependency snapshot_line 3 1"
    by simp
  from present ids len have c: "\<not> deep_chain snapshot_line 3 1"
    by simp
  from present cap
  have d: "would_create_circular_dependency (chain 60 @ [new_Feature 100 1 False False None]) 100 1"
    "\<not> reaches (chain 60 @ [new_Feature 100 1 False False None]) 1 100"
    by simp_all
  show ?thesis using a b c d cap ids len reaches_snapshot_line by simp
qed

section \<open>Verification of the scheduling scorer\<close>

lemma max_list_ge: "x \<in> set xs \<Longrightarrow> x \<le> max_list xs"
  by (induction xs) (auto simp: max_list_def)

lemma get_or_zero_nat_le_max: "get_or_zero_nat al k \<le> max_list (map snd al)"
proof (cases "map_of al k")
  case None
  then show ?thesis by (simp add: get_or_zero_nat_def)
next
  case (Some v)
  then have "(k, v) \<in> set al" by (rule map_of_SomeD)
  then have "v \<in> set (map snd al)" by force
  from max_list_ge [OF this] Some show ?thesis by (simp add: get_or_zero_nat_def)
qed

lemma score_of_bounds:
  assumes "0 \<le> priority f"
  shows "0 \<le> score_of depths downstream (max_list (map snd depths)) (max_list (map snd downstream)) f"
    and "score_of depths downstream (max_list (map snd depths)) (max_list (map snd downstream)) f \<le> 1110"
proof -
  let ?md = "max_list (map snd depths)" and ?mw = "max_list (map snd downstream)"
  let ?d = "get_or_zero_nat depths (fid f)" and ?w = "get_or_zero_nat downstream (fid f)"
  define unblock where "unblock = (if ?mw > 0 then real ?w / real ?mw else 0)"
  define depth_score where "depth_score = (if ?md > 0 then 1 - real ?d / real ?md else 1)"
  define priority_factor where "priority_factor = (10 - real_of_int (min (priority f) 10)) / 10"
  have w: "?w \<le> ?mw" and d: "?d \<le> ?md" by (rule get_or_zero_nat_le_max)+
  have u: "0 \<le> unblock" "unblock \<le> 1"
    using w by (simp_all add: unblock_def divide_le_eq_1)
  have ds: "0 \<le> depth_score" "depth_score \<le> 1"
    using d by (simp_all add: depth_score_def divide_le_eq_1)
  have p: "0 \<le> priority_factor" "priority_factor \<le> 1"
    using assms by (simp_all add: priority_factor_def min_def)
  have e: "score_of depths downstream ?md ?mw f
             = 1000 * unblock + 100 * depth_score + 10 * priority_factor"
    by (simp add: score_of_def Let_def unblock_def depth_score_def priority_factor_def)
  show "0 \<le> score_of depths downstream ?md ?mw f" using u ds p unfolding e by simp
  show "score_of depths downstream ?md ?mw f \<le> 1110" using u ds p unfolding e by simp
qed

lemma fold_scores_Some:
  "fold (\<lambda>f scores. scores(fid f \<mapsto> g f)) fs init k = Some v \<Longrightarrow>
     init k = Some v \<or> (\<exists>f\<in>set fs. fid f = k \<and> v = g f)"
  by (induction fs arbitrary: init) (fastforce split: if_splits)+

text \<open>On a snapshot whose priorities are not negative every score lies between 0 and
  1110.\<close>

lemma scheduling_scores_range_nonneg:
  assumes "compute_scheduling_scores features = Some scores"
    and "\<forall>f\<in>set features. 0 \<le> priority f"
    and "scores k = Some v"
  shows "0 \<le> v \<and> v \<le> 1110"
proof (cases "length features = 0")
  case True
  with assms(1) have "scores = Map.empty" by (simp add: compute_scheduling_scores_def)
  with assms(3) show ?thesis by simp
next
  case False
  with assms(1) obtain depths downstream where
    "scores = fold (\<lambda>f scores. scores(fid f \<mapsto>
                score_of depths downstream (max_list (map snd depths))
                  (max_list (map snd downstream)) f)) features Map.empty"
    by (auto simp: compute_scheduling_scores_def Let_def split: option.splits)
  with assms(3) fold_scores_Some [of _ features Map.empty k v]
  obtain f where "f \<in> set features"
    "v = score_of depths downstream (max_list (map snd depths)) (max_list (map snd downstream)) f"
    by auto
  with assms(2) score_of_bounds [of f depths downstream] show ?thesis by simp
qed

text \<open>
  Claim C8 does not hold of the code. The priority factor \<^verbatim>\<open>(10 - Math.min(priority, 10)) / 10\<close>
  is clamped from above only, so the negative priority of feature 1 below gives a factor of
  1.1 and the score 1000 + 100 + 11 = 1111, above the maximum of 1110.
\<close>

theorem scheduling_score_exceeds_maximum:
  "map_option (\<lambda>scores. scores 1)
     (compute_scheduling_scores
        [new_Feature 1 (- 1) False False None, new_Feature 2 5 False False (Some [1])])
     = Some (Some 1111)"
  by code_simp

text \<open>A snapshot with a dependency cycle below a root: 2 depends on 1 and 3, 3 on 2.\<close>

definition snapshot_rooted_cycle :: "Feature list" where
  "snapshot_rooted_cycle =
     [new_Feature 1 1 False False None, new_Feature 2 2 False False (Some [1, 3]),
      new_Feature 3 3 False False (Some [2])]"

lemma rooted_cycle_adjacency:
  "children (build_adjacency_lists snapshot_rooted_cycle) 1 = Some [2]"
  "children (build_adjacency_lists snapshot_rooted_cycle) 2 = Some [3]"
  "children (build_adjacency_lists snapshot_rooted_cycle) 3 = Some [2]"
  "parents (build_adjacency_lists snapshot_rooted_cycle) 1 = Some []"
  "parents (build_adjacency_lists snapshot_rooted_cycle) 2 = Some [1, 3]"
  "parents (build_adjacency_lists snapshot_rooted_cycle) 3 = Some [2]"
  by (simp_all add: build_adjacency_lists_def snapshot_rooted_cycle_def new_Feature_def
      deps_def add_child_def get_or_empty_def)

lemma bfs_loop_never_returns:
  assumes "bfs_loop chs queue depths = Some r"
  shows "\<not> (chs 1 = Some [2] \<and> chs 2 = Some [3] \<and> chs 3 = Some [2]
           \<and> (\<exists>n k. queue = [(n, k)] \<and> n \<in> {1, 2, 3}))"
proof (induction chs queue depths r rule: bfs_loop.raw_induct)
  case (1 bfs_loop' chs queue depths r)
  show ?case
  proof
    assume a: "chs 1 = Some [2] \<and> chs 2 = Some [3] \<and> chs 3 = Some [2]
           \<and> (\<exists>n k. queue = [(n, k)] \<and> n \<in> {1, 2, 3})"
    then obtain n k where q: "queue = [(n, k)]" "n \<in> {1, 2, 3}" by blast
    let ?d = "case map_of depths n of
               None \<Rightarrow> AList.update n k depths
             | Some d \<Rightarrow> if k > d then AList.update n k depths else depths"
    from a q obtain n' where n': "get_or_empty chs n = [n']" "n' \<in> {1, 2, 3}"
      by (auto simp: get_or_empty_def)
    with 1(2) q have "bfs_loop' chs [(n', k + 1)] ?d = Some r" by simp
    then have "\<not> (chs 1 = Some [2] \<and> chs 2 = Some [3] \<and> chs 3 = Some [2]
           \<and> (\<exists>n k'. [(n', k + 1)] = [(n, k')] \<and> n \<in> {1, 2, 3}))"
      by (rule 1(1))
    with a n' show False by simp
  qed
qed (fact assms)

lemma compute_scheduling_scores_diverges:
  "compute_scheduling_scores snapshot_rooted_cycle = None"
proof -
  let ?a = "build_adjacency_lists snapshot_rooted_cycle"
  have roots: "map fid (filter (\<lambda>f. length (get_or_empty (parents ?a) (fid f)) = 0)
                  snapshot_rooted_cycle) = [1]"
    by code_simp
  have ne: "length snapshot_rooted_cycle \<noteq> 0"
    by (simp add: snapshot_rooted_cycle_def)
  have "bfs_loop (children ?a) [(1, 0)] [] = None"
  proof (cases "bfs_loop (children ?a) [(1, 0)] []")
    case (Some r)
    from bfs_loop_never_returns [OF this] rooted_cycle_adjacency show ?thesis by blast
  qed simp
  with ne show ?thesis
    unfolding compute_scheduling_scores_def Let_def roots by simp
qed

lemma compute_depth_overflows:
  assumes "graph 1 = Some [2]" "graph 2 = Some [1]" "memo 1 = None" "memo 2 = None"
    "n = 1 \<or> n = 2"
  shows "compute_depth stack n graph memo = None"
  using assms(5)
proof (induction stack arbitrary: n)
  case 0
  then show ?case by simp
next
  case (Suc stack)
  from Suc.prems show ?case
  proof
    assume "n = 1"
    moreover have "compute_depth stack 2 graph memo = None" by (rule Suc.IH) simp
    ultimately show ?thesis using assms(1,3) by (simp add: get_or_empty_def)
  next
    assume "n = 2"
    moreover have "compute_depth stack 1 graph memo = None" by (rule Suc.IH) simp
    ultimately show ?thesis using assms(2,4) by (simp add: get_or_empty_def)
  qed
qed

text \<open>
  Claim C2 does not hold of the code. On a snapshot in which a dependency cycle lies below a
  root the breadth-first loop of \<^verbatim>\<open>compute_scheduling_scores\<close> never empties its queue,
  and on a cyclic graph \<^verbatim>\<open>compute_depth\<close> overflows every call stack.
\<close>

theorem engine_diverges_on_cycles:
  "compute_scheduling_scores snapshot_rooted_cycle = None
   \<and> (\<forall>stack. compute_depth stack 1
          (build_adjacency_list [new_Feature 1 1 False False (Some [2]),
                                 new_Feature 2 2 False False (Some [1])]) Map.empty = None)"
proof (intro conjI allI)
  show "compute_scheduling_scores snapshot_rooted_cycle = None"
    by (rule compute_scheduling_scores_diverges)
  show "compute_depth stack 1
          (build_adjacency_list [new_Feature 1 1 False False (Some [2]),
                                 new_Feature 2 2 False False (Some [1])]) Map.empty = None"
    for stack
    by (rule compute_depth_overflows)
       (simp_all add: build_adjacency_list_def new_Feature_def deps_def)
qed

section \<open>Verification of the readiness classifier\<close>

lemma passing_ids_iff: "d \<in> passing_ids features \<longleftrightarrow> (\<exists>g\<in>set features. fid g = d \<and> passes g)"
  by (auto simp: passing_ids_def)








lemma get_blocked_features_iff:
  "b \<in> set (get_blocked_features features) \<longleftrightarrow>
     (\<exists>f\<in>set features. \<not> passes f
        \<and> filter (\<lambda>d. \<not> (\<exists>g\<in>set features. fid g = d \<and> passes g)) (deps f) \<noteq> []
        \<and> b = Feature.extend f (BlockedFeature.fields
                  (filter (\<lambda>d. \<not> (\<exists>g\<in>set features. fid g = d \<and> passes g)) (deps f))))"
proof -
  have "(\<lambda>d. d \<notin> passing_ids features) = (\<lambda>d. \<not> (\<exists>g\<in>set features. fid g = d \<and> passes g))"
    by (simp add: passing_ids_iff)
  then show ?thesis
    by (auto simp: get_blocked_features_def Let_def)
qed

text \<open>The test of the graph construction for recording a dependency as a blocker.\<close>

definition blocks :: "(int \<rightharpoonup> Feature) \<Rightarrow> int \<Rightarrow> bool" where
  "blocks fm d = (case fm d of None \<Rightarrow> False | Some dep \<Rightarrow> \<not> passes dep)"

lemma add_edge_fold_blocked:
  "blocked (fold (add_edge fm f) ds g) k =
     (if k = fid f \<and> filter (blocks fm) ds \<noteq> []
      then Some (get_or_empty (blocked g) k @ filter (blocks fm) ds)
      else blocked g k)"
proof (induction ds arbitrary: g)
  case Nil
  then show ?case by simp
next
  case (Cons d ds)
  show ?case
  proof (cases "blocks fm d")
    case True
    then have "blocked (add_edge fm f d g) = (blocked g)(fid f \<mapsto> get_or_empty (blocked g) (fid f) @ [d])"
      by (auto simp: add_edge_def blocks_def Let_def split: option.splits)
    with True show ?thesis by (simp add: Cons.IH get_or_empty_def)
  next
    case False
    then have "blocked (add_edge fm f d g) = blocked g"
      by (auto simp: add_edge_def blocks_def Let_def split: option.splits)
    with False show ?thesis by (simp add: Cons.IH)
  qed
qed

lemma build_fold_blocked:
  "distinct (map fid xs) \<Longrightarrow>
   blocked (fold (build_step fm) xs g) k =
     (case find (\<lambda>f. fid f = k) xs of
        None \<Rightarrow> blocked g k
      | Some f \<Rightarrow> if filter (blocks fm) (deps f) \<noteq> []
                  then Some (get_or_empty (blocked g) k @ filter (blocks fm) (deps f))
                  else blocked g k)"
proof (induction xs arbitrary: g)
  case Nil
  then show ?case by simp
next
  case (Cons x xs)
  then have nf: "find (\<lambda>f. fid f = fid x) xs = None"
    by (auto simp: find_None_iff image_iff)
  show ?case
  proof (cases "k = fid x")
    case True
    with nf Cons.IH [of "build_step fm x g"] Cons.prems show ?thesis
      by (simp add: build_step_def add_edge_fold_blocked)
  next
    case False
    then have e: "blocked (build_step fm x g) k = blocked g k"
      by (simp add: build_step_def add_edge_fold_blocked)
    then have e2: "get_or_empty (blocked (build_step fm x g)) k = get_or_empty (blocked g) k"
      by (simp add: get_or_empty_def)
    have d: "distinct (map fid xs)" using Cons.prems by simp
    have "blocked (fold (build_step fm) (x # xs) g) k
            = blocked (fold (build_step fm) xs (build_step fm x g)) k"
      by simp
    also have "\<dots> = (case find (\<lambda>f. fid f = k) xs of
                         None \<Rightarrow> blocked (build_step fm x g) k
                       | Some f \<Rightarrow> if filter (blocks fm) (deps f) \<noteq> []
                           then Some (get_or_empty (blocked (build_step fm x g)) k
                                        @ filter (blocks fm) (deps f))
                           else blocked (build_step fm x g) k)"
      by (rule Cons.IH [OF d])
    also have "\<dots> = (case find (\<lambda>f. fid f = k) xs of
                         None \<Rightarrow> blocked g k
                       | Some f \<Rightarrow> if filter (blocks fm) (deps f) \<noteq> []
                           then Some (get_or_empty (blocked g) k @ filter (blocks fm) (deps f))
                           else blocked g k)"
      by (simp only: e e2)
    also have "find (\<lambda>f. fid f = k) xs = find (\<lambda>f. fid f = k) (x # xs)"
      using False by simp
    finally show ?thesis .
  qed
qed

lemma build_graph_blocked:
  assumes "distinct (map fid fs)" "f \<in> set fs"
  shows "blocked (build_graph fs) (fid f) =
           (let b = filter (\<lambda>d. \<exists>g\<in>set fs. fid g = d \<and> \<not> passes g) (deps f)
            in if b = [] then None else Some b)"
proof -
  have "blocks (feature_map fs) d \<longleftrightarrow> (\<exists>g\<in>set fs. fid g = d \<and> \<not> passes g)" for d
  proof (cases "feature_map fs d")
    case None
    then have "d \<notin> fid ` set fs" by (simp add: feature_map_None_iff)
    with None show ?thesis by (auto simp: blocks_def)
  next
    case (Some dep)
    have u: "\<forall>g\<in>set fs. fid g = d \<longrightarrow> g = dep"
    proof (intro ballI impI)
      fix g assume "g \<in> set fs" "fid g = d"
      then have "feature_map fs d = Some g"
        by (simp add: feature_map_Some_iff [OF assms(1)])
      with Some show "g = dep" by simp
    qed
    from Some have m: "dep \<in> set fs \<and> fid dep = d"
      by (simp add: feature_map_Some_iff [OF assms(1)])
    have "blocks (feature_map fs) d \<longleftrightarrow> \<not> passes dep"
      using Some by (simp add: blocks_def)
    moreover have "(\<exists>g\<in>set fs. fid g = d \<and> \<not> passes g) \<longleftrightarrow> \<not> passes dep"
      using u m by blast
    ultimately show ?thesis by simp
  qed
  then have "blocks (feature_map fs) = (\<lambda>d. \<exists>g\<in>set fs. fid g = d \<and> \<not> passes g)"
    by (simp add: fun_eq_iff)
  then show ?thesis
    using build_fold_blocked [OF assms(1), of "feature_map fs" "init_graph fs" "fid f"]
      find_distinct_fid [OF assms]
    by (simp add: build_graph_def build_step_def [abs_def] init_graph_def get_or_empty_def Let_def)
qed

text \<open>
  Claim C6 does not hold of the code. \<^verbatim>\<open>get_blocked_features\<close> keeps every dependency
  id that is not the id of a passing feature, so an id that is absent from the snapshot is
  listed in \<open>blocked_by\<close>; \<^verbatim>\<open>resolve_dependencies\<close> on the same snapshot reports that id
  as missing and not as a blocker.
\<close>

theorem get_blocked_features_lists_absent_dependency:
  "map (\<lambda>b. (fid b, blocked_by b))
     (get_blocked_features [new_Feature 1 999 False False (Some [999])]) = [(1, [999])]
   \<and> (case resolve_dependencies 100 [new_Feature 1 999 False False (Some [999])] of
         Inl e \<Rightarrow> False
       | Inr r \<Rightarrow> blocked_features r 1 = None \<and> missing_dependencies r 1 = Some [999])"
proof
  show "map (\<lambda>b. (fid b, blocked_by b))
     (get_blocked_features [new_Feature 1 999 False False (Some [999])]) = [(1, [999])]"
    by code_simp
  show "case resolve_dependencies 100 [new_Feature 1 999 False False (Some [999])] of
         Inl e \<Rightarrow> False
       | Inr r \<Rightarrow> blocked_features r 1 = None \<and> missing_dependencies r 1 = Some [999]"
    by code_simp
qed

section \<open>Verification of the priority counter\<close>

declare drop_bits.simps [simp del]

text \<open>Integers from \<open>- 2 ^ 53\<close> to \<open>2 ^ 53\<close> are numbers.\<close>

lemma to_number_exact:
  assumes "- (2 ^ 53) \<le> x" "x \<le> 2 ^ 53"
  shows "to_number x = x"
proof (cases "\<bar>x\<bar> < 2 ^ 53")
  case True
  then have "drop_bits \<bar>x\<bar> = 0" by (simp add: drop_bits.simps)
  then show ?thesis by (simp add: to_number_def Let_def mult_sgn_abs)
next
  case False
  with assms have "x = 9007199254740992 \<or> x = - 9007199254740992" by auto
  moreover have "to_number 9007199254740992 = 9007199254740992"
    "to_number (- 9007199254740992) = - 9007199254740992"
    by code_simp+
  ultimately show ?thesis by auto
qed

text \<open>One above the largest of a list of priorities, and 1 for the empty list.\<close>

definition next_after :: "int list \<Rightarrow> int" where
  "next_after ps = (if ps = [] then 1 else 1 + Max (set ps))"

text \<open>
  The values of 1 + maximum that the addition of the runtime computes exactly: the
  maximum and the sum are both numbers.
\<close>

definition assignable :: "int \<Rightarrow> bool" where
  "assignable a \<longleftrightarrow> - (2 ^ 53) < a \<and> a \<le> 2 ^ 53"

lemma next_priority_eq:
  assumes "assignable (next_after (map priority (rows st)))"
  shows "next_priority st = next_after (map priority (rows st))"
proof (cases "rows st")
  case Nil
  then show ?thesis
    by (simp add: next_priority_def max_priority_def next_after_def js_add_def to_number_exact)
next
  case (Cons r rs)
  let ?m = "fold max (map priority rs) (priority r)"
  have m: "Max (set (priority r # map priority rs)) = ?m"
    by (rule Max.set_eq_fold)
  with Cons have n: "next_after (map priority (rows st)) = 1 + ?m"
    by (simp add: next_after_def)
  with assms have r: "- (2 ^ 53) \<le> ?m" "?m + 1 \<le> 2 ^ 53"
    by (simp_all add: assignable_def)
  then have "to_number ?m = ?m" by (intro to_number_exact) simp_all
  moreover from r have "to_number (?m + 1) = ?m + 1" by (intro to_number_exact) simp_all
  ultimately show ?thesis
    using Cons n by (simp add: next_priority_def max_priority_def js_add_def)
qed

lemma next_after_greater: "p \<in> set ps \<Longrightarrow> p < next_after ps"
proof -
  assume a: "p \<in> set ps"
  then have l: "p \<le> Max (set ps)" by simp
  from a have "ps \<noteq> []" by auto
  with l show ?thesis by (simp add: next_after_def)
qed

lemma next_after_snoc:
  "next_after (ps @ [next_after ps]) = next_after ps + 1"
proof (cases "ps = []")
  case True
  then show ?thesis by (simp add: next_after_def)
next
  case False
  then have "Max (insert (1 + Max (set ps)) (set ps)) = 1 + Max (set ps)"
    by (subst Max_insert) (auto simp: max_def)
  with False show ?thesis by (simp add: next_after_def)
qed

lemma next_after_run:
  "next_after (ps @ map (\<lambda>i. next_after ps + int i) [0..<k]) = next_after ps + int k"
proof (induction k)
  case 0
  then show ?case by simp
next
  case (Suc k)
  let ?qs = "ps @ map (\<lambda>i. next_after ps + int i) [0..<k]"
  have "ps @ map (\<lambda>i. next_after ps + int i) [0..<Suc k] = ?qs @ [next_after ?qs]"
    using Suc by simp
  then have "next_after (ps @ map (\<lambda>i. next_after ps + int i) [0..<Suc k])
               = next_after ?qs + 1"
    by (simp only: next_after_snoc)
  with Suc show ?case by simp
qed

lemma insert_feature_rows:
  "insert_feature st p c n d s = (i, st') \<Longrightarrow>
     \<exists>row. rows st' = rows st @ [row] \<and> fid row = i \<and> priority row = p
        \<and> dependencies row = None \<and> i \<notin> fid ` set (rows st)"
proof -
  assume a: "insert_feature st p c n d s = (i, st')"
  have "fold max (map fid (rows st)) (last_id st) = Max (set (last_id st # map fid (rows st)))"
    by (simp only: Max.set_eq_fold)
  moreover have "fid r \<le> Max (set (last_id st # map fid (rows st)))" if "r \<in> set (rows st)" for r
    using that by (intro Max_ge) auto
  ultimately have "\<forall>r\<in>set (rows st). fid r \<noteq> fold max (map fid (rows st)) (last_id st) + 1"
    by fastforce
  then have "fold max (map fid (rows st)) (last_id st) + 1 \<notin> fid ` set (rows st)"
    by (auto simp: image_iff)
  with a show ?thesis by (auto simp: insert_feature_def Let_def)
qed




lemma feature_create_ok:
  assumes "assignable (next_after (map priority (rows st)))"
  shows "\<exists>f st'. feature_create True st c n d s = (Inr (Created f), st')
      \<and> rows st' = rows st @ [f]
      \<and> priority f = next_after (map priority (rows st))
      \<and> list_all (\<lambda>r. priority r < priority f) (rows st)"
proof -
  obtain i st' where ins: "insert_feature st (next_priority st) c n d s = (i, st')"
    by (cases "insert_feature st (next_priority st) c n d s")
  from insert_feature_rows [OF ins] obtain row where
    row: "rows st' = rows st @ [row]" "fid row = i" "priority row = next_priority st"
      "i \<notin> fid ` set (rows st)"
    by blast
  from row(4) have "filter (\<lambda>r. fid r = i) (rows st) = []"
    by (auto simp: filter_empty_conv)
  with row(1,2) have sel: "select_by_id st' i = [row]" by (simp add: select_by_id_def)
  have p: "priority row = next_after (map priority (rows st))"
    using row(3) by (simp add: next_priority_eq [OF assms])
  from assms have "to_number (next_after (map priority (rows st)))
                     = next_after (map priority (rows st))"
    by (intro to_number_exact) (simp_all add: assignable_def)
  with p have "row\<lparr>priority := to_number (priority row)\<rparr> = row" by simp
  with ins sel have c: "feature_create True st c n d s = (Inr (Created row), st')"
    by (simp add: feature_create_def Let_def)
  have "list_all (\<lambda>r. priority r < priority row) (rows st)"
    unfolding list_all_iff p by (auto intro: next_after_greater)
  with c row(1) p show ?thesis by blast
qed

lemma feature_skip_ok:
  assumes "assignable (next_after (map priority (rows st)))"
    and "feature_skip True st i = (Inr (Skipped j nm old new), st')"
  shows "new = next_after (map priority (rows st))
         \<and> list_all (\<lambda>r. priority r < new) (rows st)
         \<and> rows st' = map (\<lambda>r. if fid r = i then r\<lparr>priority := new, in_progress := False\<rparr> else r) (rows st)
         \<and> i \<in> fid ` set (rows st)"
proof -
  from assms(2) obtain feature rest where sel: "select_by_id st i = feature # rest"
    by (cases "select_by_id st i") (auto simp: feature_skip_def)
  then have "feature \<in> set (filter (\<lambda>r. fid r = i) (rows st))"
    by (simp add: select_by_id_def)
  then have m: "i \<in> fid ` set (rows st)" by auto
  from assms(2) sel have n: "new = next_priority st" and st': "st' = update_priority st i new"
    by (auto simp: feature_skip_def Let_def split: if_splits)
  have "list_all (\<lambda>r. priority r < next_after (map priority (rows st))) (rows st)"
    unfolding list_all_iff by (auto intro: next_after_greater)
  with n st' m show ?thesis
    by (simp add: next_priority_eq [OF assms(1)] update_priority_def)
qed

lemma insert_all_priorities:
  "insert_all st sp cf items = (cf', st') \<Longrightarrow>
     map priority (rows st') = map priority (rows st) @ map (\<lambda>p. js_add sp (int (fst p))) items
     \<and> length cf' = length cf + length items"
proof (induction items arbitrary: st cf)
  case Nil
  then show ?case by simp
next
  case (Cons x items)
  obtain i it where x: "x = (i, it)" by (cases x)
  obtain new_id st1 where ins: "insert_feature st (js_add sp (int i)) (item_category it)
        (item_name it) (item_description it) (item_steps it) = (new_id, st1)"
    by (cases "insert_feature st (js_add sp (int i)) (item_category it) (item_name it)
        (item_description it) (item_steps it)")
  from insert_feature_rows [OF ins]
  have r: "map priority (rows st1) = map priority (rows st) @ [js_add sp (int i)]"
    by auto
  from Cons.prems x ins have "insert_all st1 sp (cf @ [new_id]) items = (cf', st')" by simp
  from Cons.IH [OF this] r x show ?case by simp
qed

lemma update_dependencies_priorities:
  "map priority (rows (update_dependencies st i ds)) = map priority (rows st)"
  by (simp add: update_dependencies_def comp_def if_distrib cong: if_cong)

lemma resolve_indices_priorities:
  "resolve_indices cf st k items = (k', st') \<Longrightarrow> map priority (rows st') = map priority (rows st)"
proof (induction items arbitrary: st k)
  case Nil
  then show ?case by simp
next
  case (Cons x items)
  obtain i it where x: "x = (i, it)" by (cases x)
  show ?case
  proof (cases "length (indices_of it) > 0")
    case True
    with Cons.prems x have "resolve_indices cf
        (update_dependencies st (cf ! i) (Some (sort (map (\<lambda>idx. cf ! nat idx) (indices_of it)))))
        (k + 1) items = (k', st')"
      by (simp add: Let_def)
    from Cons.IH [OF this] show ?thesis by (simp add: update_dependencies_priorities)
  next
    case False
    with Cons.prems x have "resolve_indices cf st k items = (k', st')" by (simp add: Let_def)
    from Cons.IH [OF this] show ?thesis .
  qed
qed

lemma feature_create_bulk_ok:
  assumes "assignable (next_after (map priority (rows st)))"
    and "assignable (next_after (map priority (rows st)) + int (length items) - 1)"
    and "feature_create_bulk True st items = (Inr (CreatedBulk k m), st')"
  shows "k = length items
         \<and> map priority (rows st') =
             map priority (rows st)
               @ map (\<lambda>i. next_after (map priority (rows st)) + int i) [0..<length items]"
proof -
  let ?indexed = "zip [0..<length items] items"
  let ?start = "next_after (map priority (rows st))"
  have np: "next_priority st = ?start" by (rule next_priority_eq [OF assms(1)])
  obtain cf st1 where ia: "insert_all st ?start [] ?indexed = (cf, st1)"
    by (cases "insert_all st ?start [] ?indexed")
  obtain dc st2 where ri: "resolve_indices cf st1 0 ?indexed = (dc, st2)"
    by (cases "resolve_indices cf st1 0 ?indexed")
  from assms(3) ia ri have e: "k = length cf" "st' = st2"
    by (auto simp: feature_create_bulk_def Let_def np split: option.splits)
  from insert_all_priorities [OF ia]
  have p1: "map priority (rows st1) = map priority (rows st)
              @ map (\<lambda>p. js_add ?start (int (fst p))) ?indexed"
    and l: "length cf = length items" by simp_all
  have "map (\<lambda>p. js_add ?start (int (fst p))) ?indexed
          = map (\<lambda>i. js_add ?start (int i)) (map fst ?indexed)"
    by (simp only: map_map comp_def)
  also have "map fst ?indexed = [0..<length items]" by simp
  also have "map (\<lambda>i. js_add ?start (int i)) [0..<length items]
               = map (\<lambda>i. ?start + int i) [0..<length items]"
  proof (rule map_cong [OF refl])
    fix i assume "i \<in> set [0..<length items]"
    then have "i < length items" by simp
    with assms(1,2) have "- (2 ^ 53) \<le> ?start + int i" "?start + int i \<le> 2 ^ 53"
      by (simp_all add: assignable_def)
    then show "js_add ?start (int i) = ?start + int i"
      unfolding js_add_def by (rule to_number_exact)
  qed
  finally have z: "map (\<lambda>p. js_add ?start (int (fst p))) ?indexed
          = map (\<lambda>i. ?start + int i) [0..<length items]" .
  from resolve_indices_priorities [OF ri] p1 z e l show ?thesis by simp
qed

lemma run_nth:
  assumes "qs = ps @ map (\<lambda>i. next_after ps + int i) [0..<n]" "i < n"
  shows "qs ! (length ps + i) = next_after (take (length ps + i) qs)"
proof -
  have "take (length ps + i) qs = ps @ map (\<lambda>i. next_after ps + int i) [0..<i]"
    using assms by (simp add: take_map)
  then have "next_after (take (length ps + i) qs) = next_after ps + int i"
    by (simp only: next_after_run)
  moreover have "qs ! (length ps + i) = next_after ps + int i"
    using assms by (simp add: nth_append)
  ultimately show ?thesis by simp
qed

lemma run_strict: "sorted_wrt (<) (map (\<lambda>i. c + int i) [0..<n])"
  by (simp add: sorted_wrt_map)

text \<open>
  Claim C9, as stated, fails where the maximum priority has left the range in which the
  numbers of the runtime are exact. With the maximum at \<open>2 ^ 53\<close> = 9007199254740992 the
  sum \<^verbatim>\<open>max + 1\<close> rounds back to the maximum: \<^verbatim>\<open>feature_create\<close> assigns the priority the
  store already holds, and two sequential creations from the maximum \<open>2 ^ 53 - 1\<close> receive
  the same priority.
\<close>

theorem priority_repeats_counterexample:
  "map priority (rows (snd (feature_create True
       \<lparr>rows = [new_Feature 1 9007199254740992 False False None], last_id = 1\<rparr>
       ''core'' ''a'' ''first'' [])))
     = [9007199254740992, 9007199254740992]
   \<and> next_after [9007199254740992] = 9007199254740993
   \<and> map priority (rows (snd (feature_create True
       (snd (feature_create True
          \<lparr>rows = [new_Feature 1 9007199254740991 False False None], last_id = 1\<rparr>
          ''core'' ''a'' ''first'' []))
       ''core'' ''b'' ''second'' [])))
     = [9007199254740991, 9007199254740992, 9007199254740992]"
proof (intro conjI)
  show "map priority (rows (snd (feature_create True
       \<lparr>rows = [new_Feature 1 9007199254740992 False False None], last_id = 1\<rparr>
       ''core'' ''a'' ''first'' [])))
     = [9007199254740992, 9007199254740992]"
    by code_simp
  show "next_after [9007199254740992] = 9007199254740993"
    by (simp add: next_after_def)
  show "map priority (rows (snd (feature_create True
       (snd (feature_create True
          \<lparr>rows = [new_Feature 1 9007199254740991 False False None], last_id = 1\<rparr>
          ''core'' ''a'' ''first'' []))
       ''core'' ''b'' ''second'' [])))
     = [9007199254740991, 9007199254740992, 9007199254740992]"
    by code_simp
qed


text \<open>
  Claim C9, amended. Let \<open>a\<close> be 1 + the maximum priority of the store (1 for an empty
  store). As long as \<open>a\<close> lies in the range where the maximum and the sum are exact numbers
  (\<open>- 2 ^ 53 < a \<le> 2 ^ 53\<close>), \<^verbatim>\<open>feature_create\<close> with the lock held succeeds and gives the new
  row the priority \<open>a\<close>, which is above every priority of the store, and, when \<open>a + 1\<close> is in
  the range too, a second creation gets a priority above the first; a successful
  \<^verbatim>\<open>feature_skip\<close> assigns \<open>a\<close> to the skipped feature. A successful
  \<^verbatim>\<open>feature_create_bulk\<close> whose first and last value \<open>a\<close> and \<open>a + n - 1\<close> are in the range
  appends one row per item, the i-th with priority \<open>a + i\<close>, which is 1 + the maximum
  priority of the rows standing before it at its insertion; the appended priorities are
  strictly increasing.
\<close>

theorem priority_counter_spec:
  "(assignable (next_after (map priority (rows st))) \<longrightarrow>
      (\<exists>f st1. feature_create True st c n d s = (Inr (Created f), st1)
         \<and> rows st1 = rows st @ [f]
         \<and> priority f = next_after (map priority (rows st))
         \<and> list_all (\<lambda>r. priority r < priority f) (rows st)
         \<and> (assignable (next_after (map priority (rows st)) + 1) \<longrightarrow>
              (\<exists>g st2. feature_create True st1 c' n' d' s' = (Inr (Created g), st2)
                 \<and> rows st2 = rows st @ [f, g] \<and> priority f < priority g))))
   \<and> (assignable (next_after (map priority (rows st)))
       \<and> feature_skip True st i = (Inr (Skipped j nm old new), st3) \<longrightarrow>
         new = next_after (map priority (rows st))
         \<and> list_all (\<lambda>r. priority r < new) (rows st)
         \<and> rows st3 = map (\<lambda>r. if fid r = i then r\<lparr>priority := new, in_progress := False\<rparr>
                                 else r) (rows st)
         \<and> i \<in> fid ` set (rows st))
   \<and> (assignable (next_after (map priority (rows st)))
       \<and> assignable (next_after (map priority (rows st)) + int (length items) - 1)
       \<and> feature_create_bulk True st items = (Inr (CreatedBulk k m), st4) \<longrightarrow>
         k = length items
         \<and> map priority (rows st4) =
               map priority (rows st)
                 @ map (\<lambda>i. next_after (map priority (rows st)) + int i) [0..<length items]
         \<and> (\<forall>i<length items.
                map priority (rows st4) ! (length (rows st) + i)
                  = next_after (take (length (rows st) + i) (map priority (rows st4))))
         \<and> sorted_wrt (<) (drop (length (rows st)) (map priority (rows st4))))"
proof (intro conjI impI)
  assume a: "assignable (next_after (map priority (rows st)))"
  from feature_create_ok [OF a, of c n d s] obtain f st1 where
    f: "feature_create True st c n d s = (Inr (Created f), st1)" "rows st1 = rows st @ [f]"
       "priority f = next_after (map priority (rows st))"
       "list_all (\<lambda>r. priority r < priority f) (rows st)"
    by blast
  have "\<exists>g st2. feature_create True st1 c' n' d' s' = (Inr (Created g), st2)
              \<and> rows st2 = rows st @ [f, g] \<and> priority f < priority g"
    if a2: "assignable (next_after (map priority (rows st)) + 1)"
  proof -
    have "next_after (map priority (rows st1))
            = next_after (map priority (rows st) @ [next_after (map priority (rows st))])"
      using f(2,3) by simp
    also have "\<dots> = next_after (map priority (rows st)) + 1" by (rule next_after_snoc)
    finally have "assignable (next_after (map priority (rows st1)))" using a2 by simp
    from feature_create_ok [OF this, of c' n' d' s'] obtain g st2 where
      g: "feature_create True st1 c' n' d' s' = (Inr (Created g), st2)"
         "rows st2 = rows st1 @ [g]"
         "list_all (\<lambda>r. priority r < priority g) (rows st1)"
      by blast
    from g(3) f(2) have "priority f < priority g" by simp
    moreover from g(2) f(2) have "rows st2 = rows st @ [f, g]" by simp
    ultimately show ?thesis using g(1) by blast
  qed
  with f show "\<exists>f st1. feature_create True st c n d s = (Inr (Created f), st1)
         \<and> rows st1 = rows st @ [f]
         \<and> priority f = next_after (map priority (rows st))
         \<and> list_all (\<lambda>r. priority r < priority f) (rows st)
         \<and> (assignable (next_after (map priority (rows st)) + 1) \<longrightarrow>
              (\<exists>g st2. feature_create True st1 c' n' d' s' = (Inr (Created g), st2)
                 \<and> rows st2 = rows st @ [f, g] \<and> priority f < priority g))"
    by blast
next
  assume "assignable (next_after (map priority (rows st)))
       \<and> feature_skip True st i = (Inr (Skipped j nm old new), st3)"
  then have a: "assignable (next_after (map priority (rows st)))"
    and b: "feature_skip True st i = (Inr (Skipped j nm old new), st3)"
    by simp_all
  note s = feature_skip_ok [OF a b]
  from s show "new = next_after (map priority (rows st))" by (rule conjunct1)
  from s show "list_all (\<lambda>r. priority r < new) (rows st)" by (rule conjunct1 [OF conjunct2])
  from s show "rows st3 = map (\<lambda>r. if fid r = i then r\<lparr>priority := new, in_progress := False\<rparr>
                                 else r) (rows st)"
    by (rule conjunct1 [OF conjunct2 [OF conjunct2]])
  from s show "i \<in> fid ` set (rows st)" by (rule conjunct2 [OF conjunct2 [OF conjunct2]])
next
  assume "assignable (next_after (map priority (rows st)))
       \<and> assignable (next_after (map priority (rows st)) + int (length items) - 1)
       \<and> feature_create_bulk True st items = (Inr (CreatedBulk k m), st4)"
  then have a: "assignable (next_after (map priority (rows st)))"
    and a2: "assignable (next_after (map priority (rows st)) + int (length items) - 1)"
    and c: "feature_create_bulk True st items = (Inr (CreatedBulk k m), st4)"
    by simp_all
  note b = feature_create_bulk_ok [OF a a2 c]
  from b show "k = length items" by (rule conjunct1)
  from b show q: "map priority (rows st4) =
               map priority (rows st)
                 @ map (\<lambda>i. next_after (map priority (rows st)) + int i) [0..<length items]"
    by (rule conjunct2)
  show "\<forall>i<length items.
                map priority (rows st4) ! (length (rows st) + i)
                  = next_after (take (length (rows st) + i) (map priority (rows st4)))"
  proof (intro allI impI)
    fix i assume "i < length items"
    from run_nth [OF q this] show "map priority (rows st4) ! (length (rows st) + i)
                  = next_after (take (length (rows st) + i) (map priority (rows st4)))"
      by simp
  qed
  have "drop (length (rows st)) (map priority (rows st4))
          = map (\<lambda>i. next_after (map priority (rows st)) + int i) [0..<length items]"
    by (simp only: q) simp
  then show "sorted_wrt (<) (drop (length (rows st)) (map priority (rows st4)))"
    by (simp only: run_strict)
qed

definition store_queue :: store where
  "store_queue =
     \<lparr>rows = [new_Feature 1 1 False False None, new_Feature 2 7 False True None], last_id = 2\<rparr>"

definition items_queue :: "bulk_item list" where
  "items_queue =
     [\<lparr>item_category = ''core'', item_name = ''a'', item_description = ''first'',
        item_steps = [], depends_on_indices = None\<rparr>,
      \<lparr>item_category = ''core'', item_name = ''b'', item_description = ''second'',
        item_steps = [], depends_on_indices = Some [0]\<rparr>]"

theorem priority_counter_spec_witness:
  "assignable (next_after (map priority (rows store_queue)))
   \<and> assignable (next_after (map priority (rows store_queue)) + 1)
   \<and> assignable (next_after (map priority (rows store_queue)) + int (length items_queue) - 1)
   \<and> (\<exists>f st1. feature_create True store_queue [] [] [] [] = (Inr (Created f), st1)
       \<and> priority f = 8
       \<and> (\<exists>g st2. feature_create True st1 [] [] [] [] = (Inr (Created g), st2)
              \<and> priority f < priority g))
   \<and> (\<exists>st3. feature_skip True store_queue 1 = (Inr (Skipped 1 [] 1 8), st3)
         \<and> map priority (rows st3) = [8, 7])
   \<and> (\<exists>st4. feature_create_bulk True store_queue items_queue = (Inr (CreatedBulk 2 1), st4)
         \<and> map priority (rows st4) = [1, 7, 8, 9])"
proof -
  have na: "next_after (map priority (rows store_queue)) = 8"
    by (simp add: store_queue_def new_Feature_def next_after_def)
  have a1: "assignable (next_after (map priority (rows store_queue)))"
    and a2: "assignable (next_after (map priority (rows store_queue)) + 1)"
    and a3: "assignable (next_after (map priority (rows store_queue))
                          + int (length items_queue) - 1)"
    unfolding na by (simp_all add: assignable_def items_queue_def)
  have sk: "fst (feature_skip True store_queue 1) = Inr (Skipped 1 [] 1 8)"
    by code_simp
  have bk: "fst (feature_create_bulk True store_queue items_queue) = Inr (CreatedBulk 2 1)"
    by code_simp
  obtain st3 where st3: "feature_skip True store_queue 1 = (Inr (Skipped 1 [] 1 8), st3)"
    using sk by (cases "feature_skip True store_queue 1") simp
  obtain st4 where st4:
    "feature_create_bulk True store_queue items_queue = (Inr (CreatedBulk 2 1), st4)"
    using bk by (cases "feature_create_bulk True store_queue items_queue") simp
  note spec = priority_counter_spec [where st = store_queue and c = "[]" and n = "[]"
      and d = "[]" and s = "[]" and c' = "[]" and n' = "[]" and d' = "[]" and s' = "[]"
      and i = 1 and j = 1 and nm = "[]" and old = 1 and new = 8 and ?st3.0 = st3
      and items = items_queue and k = 2 and m = 1 and ?st4.0 = st4]
  from mp [OF conjunct1 [OF spec] a1] obtain f st1 where
    c: "feature_create True store_queue [] [] [] [] = (Inr (Created f), st1)"
       "priority f = next_after (map priority (rows store_queue))"
    and c2: "assignable (next_after (map priority (rows store_queue)) + 1) \<longrightarrow>
              (\<exists>g st2. feature_create True st1 [] [] [] [] = (Inr (Created g), st2)
                 \<and> rows st2 = rows store_queue @ [f, g] \<and> priority f < priority g)"
    by blast
  from mp [OF c2 a2] obtain g st2 where
    g: "feature_create True st1 [] [] [] [] = (Inr (Created g), st2)" "priority f < priority g"
    by blast
  from c(2) have "priority f = 8" by (simp only: na)
  with c(1) g have 1: "\<exists>f st1. feature_create True store_queue [] [] [] [] = (Inr (Created f), st1)
       \<and> priority f = 8
       \<and> (\<exists>g st2. feature_create True st1 [] [] [] [] = (Inr (Created g), st2)
              \<and> priority f < priority g)"
    by blast
  from mp [OF conjunct1 [OF conjunct2 [OF spec]] conjI [OF a1 st3]]
  have "rows st3 = map (\<lambda>r. if fid r = 1 then r\<lparr>priority := 8, in_progress := False\<rparr>
                                 else r) (rows store_queue)"
    by (rule conjunct1 [OF conjunct2 [OF conjunct2]])
  then have 2: "map priority (rows st3) = [8, 7]"
    by (simp add: store_queue_def new_Feature_def)
  from mp [OF conjunct2 [OF conjunct2 [OF spec]] conjI [OF a1 conjI [OF a3 st4]]]
  have "map priority (rows st4) =
               map priority (rows store_queue)
                 @ map (\<lambda>i. next_after (map priority (rows store_queue)) + int i)
                     [0..<length items_queue]"
    by (rule conjunct1 [OF conjunct2])
  then have 3: "map priority (rows st4) = [1, 7, 8, 9]"
    unfolding na by (simp add: store_queue_def new_Feature_def items_queue_def upt_rec)
  from st3 2 have s2: "\<exists>st3. feature_skip True store_queue 1 = (Inr (Skipped 1 [] 1 8), st3)
         \<and> map priority (rows st3) = [8, 7]"
    by (intro exI [of _ st3] conjI)
  from st4 3 have s3: "\<exists>st4. feature_create_bulk True store_queue items_queue
                          = (Inr (CreatedBulk 2 1), st4)
         \<and> map priority (rows st4) = [1, 7, 8, 9]"
    by (intro exI [of _ st4] conjI)
  from a1 a2 a3 1 s2 s3 show ?thesis by (intro conjI)
qed

section \<open>Verification of the sorted dependency lists\<close>

definition deps_sorted :: "store \<Rightarrow> bool" where
  "deps_sorted st = list_all (\<lambda>r. sorted (deps r)) (rows st)"

lemma deps_sorted_update:
  "deps_sorted st \<Longrightarrow> sorted (case ds of None \<Rightarrow> [] | Some l \<Rightarrow> l) \<Longrightarrow>
     deps_sorted (update_dependencies st i ds)"
  by (auto simp: deps_sorted_def update_dependencies_def list_all_iff deps_def)

lemma deps_sorted_update_priority:
  "deps_sorted st \<Longrightarrow> deps_sorted (update_priority st i p)"
  by (auto simp: deps_sorted_def update_priority_def list_all_iff deps_def)

lemma deps_sorted_insert:
  "deps_sorted st \<Longrightarrow> deps_sorted (snd (insert_feature st p c n d s))"
  by (simp add: deps_sorted_def insert_feature_def Let_def deps_def)

lemma deps_sorted_insert_all:
  "deps_sorted st \<Longrightarrow> deps_sorted (snd (insert_all st sp cf items))"
proof (induction items arbitrary: st cf)
  case Nil
  then show ?case by simp
next
  case (Cons x items)
  obtain i it where x: "x = (i, it)" by (cases x)
  obtain new_id st1 where ins: "insert_feature st (js_add sp (int i)) (item_category it) (item_name it)
        (item_description it) (item_steps it) = (new_id, st1)"
    by (cases "insert_feature st (js_add sp (int i)) (item_category it) (item_name it)
        (item_description it) (item_steps it)")
  from deps_sorted_insert [OF Cons.prems, of "js_add sp (int i)" "item_category it" "item_name it"
        "item_description it" "item_steps it"] ins
  have "deps_sorted st1" by simp
  from Cons.IH [OF this, of "cf @ [new_id]"] x ins show ?case by simp
qed

lemma deps_sorted_resolve_indices:
  "deps_sorted st \<Longrightarrow> deps_sorted (snd (resolve_indices cf st k items))"
proof (induction items arbitrary: st k)
  case Nil
  then show ?case by simp
next
  case (Cons x items)
  obtain i it where x: "x = (i, it)" by (cases x)
  show ?case
  proof (cases "length (indices_of it) > 0")
    case True
    let ?st1 = "update_dependencies st (cf ! i)
                  (Some (sort (map (\<lambda>idx. cf ! nat idx) (indices_of it))))"
    have "deps_sorted ?st1" using Cons.prems by (intro deps_sorted_update) simp_all
    from Cons.IH [OF this, of "k + 1"] x True show ?thesis by (simp add: Let_def)
  next
    case False
    with Cons.IH [OF Cons.prems, of k] x show ?thesis by (simp add: Let_def)
  qed
qed

lemma deps_sorted_create: "deps_sorted st \<Longrightarrow> deps_sorted (snd (feature_create l st c n d s))"
  using deps_sorted_insert [of st "next_priority st" c n d s]
  by (cases "insert_feature st (next_priority st) c n d s")
     (auto simp: feature_create_def Let_def split: list.splits)

lemma deps_sorted_skip: "deps_sorted st \<Longrightarrow> deps_sorted (snd (feature_skip l st i))"
  by (auto simp: feature_skip_def Let_def deps_sorted_update_priority split: list.splits)

lemma deps_sorted_bulk:
  assumes "deps_sorted st"
  shows "deps_sorted (snd (feature_create_bulk l st items))"
proof -
  let ?indexed = "zip [0..<length items] items"
  obtain cf st1 where ia: "insert_all st (next_priority st) [] ?indexed = (cf, st1)"
    by (cases "insert_all st (next_priority st) [] ?indexed")
  obtain dc st2 where ri: "resolve_indices cf st1 0 ?indexed = (dc, st2)"
    by (cases "resolve_indices cf st1 0 ?indexed")
  from deps_sorted_insert_all [OF assms, of "next_priority st" "[]" ?indexed] ia
  have "deps_sorted st1" by simp
  from deps_sorted_resolve_indices [OF this, of cf 0 ?indexed] ri have "deps_sorted st2" by simp
  with assms ia ri show ?thesis
    by (auto simp: feature_create_bulk_def Let_def split: option.splits)
qed

lemma deps_sorted_add:
  assumes "deps_sorted st"
  shows "deps_sorted (snd (feature_add_dependency st i d))"
proof -
  have "deps_sorted (update_dependencies st i (Some (sort (xs @ [d]))))" for xs
    using assms by (intro deps_sorted_update) simp_all
  with assms show ?thesis
    by (auto simp: feature_add_dependency_def Let_def split: list.splits)
qed

lemma select_by_id_mem: "select_by_id st i = f # rest \<Longrightarrow> f \<in> set (rows st) \<and> fid f = i"
proof -
  assume "select_by_id st i = f # rest"
  then have "f \<in> set (filter (\<lambda>r. fid r = i) (rows st))" by (simp add: select_by_id_def)
  then show ?thesis by simp
qed

lemma deps_sorted_remove:
  assumes "deps_sorted st"
  shows "deps_sorted (snd (feature_remove_dependency st i d))"
proof (cases "select_by_id st i")
  case Nil
  with assms show ?thesis by (simp add: feature_remove_dependency_def)
next
  case (Cons f rest)
  from select_by_id_mem [OF Cons] assms have s: "sorted (deps f)"
    by (simp add: deps_sorted_def list_all_iff)
  then have s': "sorted (filter (\<lambda>x. x \<noteq> d) (deps f))" by (rule sorted_wrt_filter)
  have u: "deps_sorted (update_dependencies st i
             (if length (filter (\<lambda>x. x \<noteq> d) (deps f)) > 0
              then Some (filter (\<lambda>x. x \<noteq> d) (deps f)) else None))"
    using assms s' by (intro deps_sorted_update) simp_all
  show ?thesis
    using assms u Cons by (simp add: feature_remove_dependency_def Let_def)
qed

lemma deps_sorted_set:
  assumes "deps_sorted st"
  shows "deps_sorted (snd (feature_set_dependencies st i ds))"
proof -
  have "deps_sorted (update_dependencies st i (Some (sort ds)))"
    and "deps_sorted (update_dependencies st i None)"
    using assms by (simp_all add: deps_sorted_update)
  with assms show ?thesis
    by (simp add: feature_set_dependencies_def Let_def split: list.splits option.splits)
qed


lemma update_dependencies_row:
  assumes "r \<in> set (rows (update_dependencies st i x))" and "fid r = i"
  shows "dependencies r = x"
proof -
  from assms(1)
  have "r \<in> (\<lambda>r. if fid r = i then r\<lparr>dependencies := x\<rparr> else r) ` set (rows st)"
    by (simp add: update_dependencies_def)
  then obtain r0 where
    r0: "r = (if fid r0 = i then r0\<lparr>dependencies := x\<rparr> else r0)"
    by (rule imageE)
  show ?thesis
  proof (cases "fid r0 = i")
    case True
    with r0 show ?thesis by simp
  next
    case False
    with r0 assms(2) show ?thesis by simp
  qed
qed

lemma feature_add_dependency_ok:
  assumes "feature_add_dependency st i d = (Inr (Dependencies j out), st')"
  shows "sorted out \<and> d \<in> set out
         \<and> list_all (\<lambda>r. fid r = i \<longrightarrow> dependencies r = Some out) (rows st')"
proof -
  from assms obtain f rest where f: "select_by_id st i = f # rest"
    by (cases "select_by_id st i") (auto simp: feature_add_dependency_def split: if_splits)
  from assms f have "out = sort (deps f @ [d]) \<and> st' = update_dependencies st i (Some out)"
    by (auto simp: feature_add_dependency_def Let_def split: if_splits list.splits)
  then show ?thesis
    by (auto simp: list_all_iff dest: update_dependencies_row)
qed

lemma feature_remove_dependency_ok:
  assumes "deps_sorted st"
    and "feature_remove_dependency st i d = (Inr (Dependencies j out), st')"
  shows "sorted out \<and> d \<notin> set out
         \<and> list_all (\<lambda>r. fid r = i \<longrightarrow> deps r = out) (rows st')"
proof -
  from assms(2) obtain f rest where f: "select_by_id st i = f # rest"
    by (cases "select_by_id st i") (auto simp: feature_remove_dependency_def)
  from select_by_id_mem [OF f] assms(1) have s: "sorted (deps f)"
    by (simp add: deps_sorted_def list_all_iff)
  from assms(2) f have o: "out = filter (\<lambda>x. x \<noteq> d) (deps f)"
    and st': "st' = update_dependencies st i (if length out > 0 then Some out else None)"
    by (auto simp: feature_remove_dependency_def Let_def split: if_splits)
  from s o have "sorted out" by (simp only: sorted_wrt_filter)
  moreover from o have "d \<notin> set out" by simp
  moreover have "deps r = out" if "r \<in> set (rows st')" "fid r = i" for r
    using update_dependencies_row [OF that(1) [unfolded st'] that(2)]
    by (simp add: deps_def split: if_splits)
  ultimately show ?thesis by (simp add: list_all_iff)
qed

lemma feature_set_dependencies_ok:
  assumes "feature_set_dependencies st i ds = (Inr (Dependencies j out), st')"
  shows "sorted out \<and> set out = set ds
         \<and> list_all (\<lambda>r. fid r = i \<longrightarrow> deps r = out) (rows st')"
proof -
  from assms have o: "out = sort ds"
    and st': "st' = update_dependencies st i (if length out > 0 then Some out else None)"
    by (auto simp: feature_set_dependencies_def Let_def
             split: if_splits list.splits option.splits)
  have "deps r = out" if "r \<in> set (rows st')" "fid r = i" for r
    using update_dependencies_row [OF that(1) [unfolded st'] that(2)]
    by (simp add: deps_def split: if_splits)
  with o show ?thesis by (simp add: list_all_iff)
qed

text \<open>
  Claim C10. When every stored dependency list is sorted in ascending order, it is so after
  each tool that writes the table. The list that \<^verbatim>\<open>feature_add_dependency\<close>,
  \<^verbatim>\<open>feature_remove_dependency\<close> and \<^verbatim>\<open>feature_set_dependencies\<close> report on success is
  sorted and is the list of the feature in the table afterwards.
\<close>

theorem dependencies_stay_sorted:
  assumes "deps_sorted st"
  shows "deps_sorted (snd (feature_add_dependency st i d))
         \<and> deps_sorted (snd (feature_remove_dependency st i d))
         \<and> deps_sorted (snd (feature_set_dependencies st i ds))
         \<and> deps_sorted (snd (feature_create_bulk l st items))
         \<and> deps_sorted (snd (feature_create l st c n de s))
         \<and> deps_sorted (snd (feature_skip l st i))
         \<and> (feature_add_dependency st i d = (Inr (Dependencies j out), st1) \<longrightarrow>
                sorted out \<and> d \<in> set out
                \<and> list_all (\<lambda>r. fid r = i \<longrightarrow> dependencies r = Some out) (rows st1))
         \<and> (feature_remove_dependency st i d = (Inr (Dependencies j' out'), st2) \<longrightarrow>
                sorted out' \<and> d \<notin> set out'
                \<and> list_all (\<lambda>r. fid r = i \<longrightarrow> deps r = out') (rows st2))
         \<and> (feature_set_dependencies st i ds = (Inr (Dependencies j'' out''), st3) \<longrightarrow>
                sorted out'' \<and> set out'' = set ds
                \<and> list_all (\<lambda>r. fid r = i \<longrightarrow> deps r = out'') (rows st3))"
proof (intro conjI impI)
  show "deps_sorted (snd (feature_add_dependency st i d))"
    using assms by (rule deps_sorted_add)
  show "deps_sorted (snd (feature_remove_dependency st i d))"
    using assms by (rule deps_sorted_remove)
  show "deps_sorted (snd (feature_set_dependencies st i ds))"
    using assms by (rule deps_sorted_set)
  show "deps_sorted (snd (feature_create_bulk l st items))"
    using assms by (rule deps_sorted_bulk)
  show "deps_sorted (snd (feature_create l st c n de s))"
    using assms by (rule deps_sorted_create)
  show "deps_sorted (snd (feature_skip l st i))"
    using assms by (rule deps_sorted_skip)
next
  assume a: "feature_add_dependency st i d = (Inr (Dependencies j out), st1)"
  note r = feature_add_dependency_ok [OF a]
  from r show "sorted out" by (rule conjunct1)
  from r show "d \<in> set out" by (rule conjunct1 [OF conjunct2])
  from r show "list_all (\<lambda>r. fid r = i \<longrightarrow> dependencies r = Some out) (rows st1)"
    by (rule conjunct2 [OF conjunct2])
next
  assume a: "feature_remove_dependency st i d = (Inr (Dependencies j' out'), st2)"
  note r = feature_remove_dependency_ok [OF assms a]
  from r show "sorted out'" by (rule conjunct1)
  from r show "d \<notin> set out'" by (rule conjunct1 [OF conjunct2])
  from r show "list_all (\<lambda>r. fid r = i \<longrightarrow> deps r = out') (rows st2)"
    by (rule conjunct2 [OF conjunct2])
next
  assume a: "feature_set_dependencies st i ds = (Inr (Dependencies j'' out''), st3)"
  note r = feature_set_dependencies_ok [OF a]
  from r show "sorted out''" by (rule conjunct1)
  from r show "set out'' = set ds" by (rule conjunct1 [OF conjunct2])
  from r show "list_all (\<lambda>r. fid r = i \<longrightarrow> deps r = out'') (rows st3)"
    by (rule conjunct2 [OF conjunct2])
qed

definition store_deps :: store where
  "store_deps =
     \<lparr>rows = [new_Feature 1 1 False False None, new_Feature 2 2 False False None,
              new_Feature 3 3 False False (Some [2]),
              new_Feature 4 4 False False (Some [1, 3])],
      last_id = 4\<rparr>"

definition items_deps :: "bulk_item list" where
  "items_deps =
     [\<lparr>item_category = ''core'', item_name = ''a'', item_description = ''first'',
        item_steps = [], depends_on_indices = None\<rparr>,
      \<lparr>item_category = ''core'', item_name = ''b'', item_description = ''second'',
        item_steps = [], depends_on_indices = None\<rparr>,
      \<lparr>item_category = ''core'', item_name = ''c'', item_description = ''third'',
        item_steps = [], depends_on_indices = Some [1, 0]\<rparr>]"

theorem dependencies_stay_sorted_witness:
  "deps_sorted store_deps
   \<and> (\<exists>st1. feature_add_dependency store_deps 3 1 = (Inr (Dependencies 3 [1, 2]), st1)
          \<and> deps_sorted st1 \<and> map deps (rows st1) = [[], [], [1, 2], [1, 3]])
   \<and> (\<exists>st2. feature_remove_dependency store_deps 4 1 = (Inr (Dependencies 4 [3]), st2)
          \<and> deps_sorted st2 \<and> map deps (rows st2) = [[], [], [2], [3]])
   \<and> (\<exists>st3. feature_set_dependencies store_deps 4 [3, 2, 1] = (Inr (Dependencies 4 [1, 2, 3]), st3)
          \<and> deps_sorted st3 \<and> map deps (rows st3) = [[], [], [2], [1, 2, 3]])
   \<and> (\<exists>st4. feature_create_bulk True store_deps items_deps = (Inr (CreatedBulk 3 1), st4)
          \<and> deps_sorted st4 \<and> map deps (rows st4) = [[], [], [2], [1, 3], [], [], [5, 6]])"
proof -
  have inv: "deps_sorted store_deps"
    by (simp add: deps_sorted_def store_deps_def new_Feature_def deps_def)
  have a: "fst (feature_add_dependency store_deps 3 1) = Inr (Dependencies 3 [1, 2])"
    "map deps (rows (snd (feature_add_dependency store_deps 3 1))) = [[], [], [1, 2], [1, 3]]"
    by code_simp+
  have r: "fst (feature_remove_dependency store_deps 4 1) = Inr (Dependencies 4 [3])"
    "map deps (rows (snd (feature_remove_dependency store_deps 4 1))) = [[], [], [2], [3]]"
    by code_simp+
  have s: "fst (feature_set_dependencies store_deps 4 [3, 2, 1]) = Inr (Dependencies 4 [1, 2, 3])"
    "map deps (rows (snd (feature_set_dependencies store_deps 4 [3, 2, 1])))
       = [[], [], [2], [1, 2, 3]]"
    by code_simp+
  have b: "fst (feature_create_bulk True store_deps items_deps) = Inr (CreatedBulk 3 1)"
    "map deps (rows (snd (feature_create_bulk True store_deps items_deps)))
       = [[], [], [2], [1, 3], [], [], [5, 6]]"
    by code_simp+
  note spec = dependencies_stay_sorted [OF inv]
  have 1: "\<exists>st1. feature_add_dependency store_deps 3 1 = (Inr (Dependencies 3 [1, 2]), st1)
          \<and> deps_sorted st1 \<and> map deps (rows st1) = [[], [], [1, 2], [1, 3]]"
    using conjunct1 [OF spec [of 3 1]] a
    by (intro exI [of _ "snd (feature_add_dependency store_deps 3 1)"])
       (simp only: prod_eq_iff fst_conv snd_conv simp_thms)
  have 2: "\<exists>st2. feature_remove_dependency store_deps 4 1 = (Inr (Dependencies 4 [3]), st2)
          \<and> deps_sorted st2 \<and> map deps (rows st2) = [[], [], [2], [3]]"
    using conjunct1 [OF conjunct2 [OF spec [of 4 1]]] r
    by (intro exI [of _ "snd (feature_remove_dependency store_deps 4 1)"])
       (simp only: prod_eq_iff fst_conv snd_conv simp_thms)
  have 3: "\<exists>st3. feature_set_dependencies store_deps 4 [3, 2, 1]
                  = (Inr (Dependencies 4 [1, 2, 3]), st3)
          \<and> deps_sorted st3 \<and> map deps (rows st3) = [[], [], [2], [1, 2, 3]]"
    using conjunct1 [OF conjunct2 [OF conjunct2 [OF spec [of 4 _ "[3, 2, 1]"]]]] s
    by (intro exI [of _ "snd (feature_set_dependencies store_deps 4 [3, 2, 1])"])
       (simp only: prod_eq_iff fst_conv snd_conv simp_thms)
  have 4: "\<exists>st4. feature_create_bulk True store_deps items_deps = (Inr (CreatedBulk 3 1), st4)
          \<and> deps_sorted st4 \<and> map deps (rows st4) = [[], [], [2], [1, 3], [], [], [5, 6]]"
    using conjunct1 [OF conjunct2 [OF conjunct2 [OF conjunct2
            [OF spec [of _ _ _ True items_deps]]]]] b
    by (intro exI [of _ "snd (feature_create_bulk True store_deps items_deps)"])
       (simp only: prod_eq_iff fst_conv snd_conv simp_thms)
  from inv 1 2 3 4 show ?thesis by (intro conjI)
qed

end
